theory Spec2Isabelle
  imports Complex_Main "HOL-Library.Word" "HOL-Library.Sublist"
begin

section \<open>JavaScript strings\<close>

text \<open>
  A JavaScript string is a sequence of 16-bit code units. The regular expressions of the
  source carry no \<open>u\<close> flag, so they too work on code units. Literals of the source are
  written with \<open>js\<close>; all of them are ASCII.
\<close>

type_synonym jschar = "16 word"
type_synonym jsstring = "jschar list"

definition js :: "string \<Rightarrow> jsstring" where
  "js s = map of_char s"

definition startsWith :: "jsstring \<Rightarrow> jsstring \<Rightarrow> bool" where
  \<comment> \<open>\<open>s.startsWith(p)\<close>\<close>
  "startsWith s p = (take (length p) s = p)"

definition endsWith :: "jsstring \<Rightarrow> jsstring \<Rightarrow> bool" where
  "endsWith s p = (length p \<le> length s \<and> drop (length s - length p) s = p)"

definition substring :: "nat \<Rightarrow> nat \<Rightarrow> jsstring \<Rightarrow> jsstring" where
  \<comment> \<open>\<open>s.substring(a, b)\<close> for \<open>a \<le> b\<close>; both ends are clamped to the length\<close>
  "substring a b s = take (b - a) (drop a s)"

definition substr :: "nat \<Rightarrow> nat \<Rightarrow> jsstring \<Rightarrow> jsstring" where
  \<comment> \<open>\<open>s.substr(a, n)\<close>\<close>
  "substr a n s = take n (drop a s)"

fun split :: "jschar \<Rightarrow> jsstring \<Rightarrow> jsstring list" where
  \<comment> \<open>\<open>s.split(c)\<close> for a separator of one code unit: the empty string gives one empty piece\<close>
  "split c [] = [[]]"
| "split c (x # xs) =
     (if x = c then [] # split c xs
      else (case split c xs of l # ls \<Rightarrow> (x # l) # ls | [] \<Rightarrow> [[x]]))"

fun join :: "jsstring \<Rightarrow> jsstring list \<Rightarrow> jsstring" where
  \<comment> \<open>\<open>xs.join(sep)\<close>\<close>
  "join sep [] = []"
| "join sep [x] = x"
| "join sep (x # y # ys) = x @ sep @ join sep (y # ys)"

definition replace_first :: "jschar \<Rightarrow> jsstring \<Rightarrow> jsstring \<Rightarrow> jsstring" where
  \<comment> \<open>\<open>s.replace(c, r)\<close> with a string pattern of one code unit: only the first occurrence\<close>
  "replace_first c r s =
     (case dropWhile (\<lambda>x. x \<noteq> c) s of
        [] \<Rightarrow> s
      | _ # rest \<Rightarrow> takeWhile (\<lambda>x. x \<noteq> c) s @ r @ rest)"

definition toLowerCase :: "jsstring \<Rightarrow> jsstring" where
  \<comment> \<open>On ASCII, which is all the source applies it to: \<open>A\<close>..\<open>Z\<close> move to \<open>a\<close>..\<open>z\<close>.\<close>
  "toLowerCase s = map (\<lambda>c. if 0x41 \<le> c \<and> c \<le> 0x5A then c + 0x20 else c) s"

fun digits :: "nat \<Rightarrow> jsstring" where
  "digits n = (if n < 10 then [of_nat (48 + n)] else digits (n div 10) @ [of_nat (48 + n mod 10)])"

definition numToString :: "int \<Rightarrow> jsstring" where
  \<comment> \<open>An integer inside a template literal: its decimal digits (below \<open>10^21\<close> in size,
      which every count and every clock value of the source is).\<close>
  "numToString n = (if n < 0 then js ''-'' @ digits (nat (- n)) else digits (nat n))"

definition isLineTerminator :: "jschar \<Rightarrow> bool" where
  \<comment> \<open>the code units that \<open>.\<close> of a regular expression does not match\<close>
  "isLineTerminator c = (c = 0x000A \<or> c = 0x000D \<or> c = 0x2028 \<or> c = 0x2029)"

definition isWhiteSpace :: "jschar \<Rightarrow> bool" where
  \<comment> \<open>the code units that \<open>trim\<close> strips: WhiteSpace and LineTerminator of ECMAScript\<close>
  "isWhiteSpace c =
     (c \<in> {0x0009, 0x000A, 0x000B, 0x000C, 0x000D, 0x0020, 0x00A0, 0x1680, 0x2028, 0x2029,
            0x202F, 0x205F, 0x3000, 0xFEFF} \<or> (0x2000 \<le> c \<and> c \<le> 0x200A))"

definition trim :: "jsstring \<Rightarrow> jsstring" where
  "trim s = rev (dropWhile isWhiteSpace (rev (dropWhile isWhiteSpace s)))"

section \<open>Thrown values\<close>

text \<open>
  A rejected promise or a \<open>throw\<close> carries a value. The source only asks of it whether it
  is an \<open>Error\<close>, and then reads its message.
\<close>

datatype thrown = Error (message: jsstring) | NonError

section \<open>Regular expressions\<close>

text \<open>
  The part of the regular expressions of JavaScript that the source uses, with the
  backtracking of the language: a matcher gives, for a state (what is left of the input,
  and the groups captured so far, the latest first), the states in which it can end, the
  preferred one first. A quantifier is greedy: it prefers to go on. \<open>.\<close> matches one code
  unit that is no line terminator; \<open>^\<close> and \<open>$\<close> (no \<open>m\<close> flag) match at the two ends of
  the input.
\<close>

type_synonym rx_state = "jsstring \<times> (nat \<times> jsstring) list"

datatype rx =
    Lit jsstring    \<comment> \<open>the code units of a text, one after the other\<close>
  | NotChr jschar   \<comment> \<open>\<open>[^c]\<close>\<close>
  | Dot             \<comment> \<open>\<open>.\<close>\<close>
  | Cat rx rx       \<comment> \<open>one expression, then the other\<close>
  | Opt rx          \<comment> \<open>\<open>r?\<close>\<close>
  | Star rx         \<comment> \<open>\<open>r*\<close>\<close>
  | Plus rx         \<comment> \<open>\<open>r+\<close>\<close>
  | Grp nat rx      \<comment> \<open>\<open>(r)\<close>, the capturing group of the given number\<close>
  | Bol             \<comment> \<open>\<open>^\<close>\<close>
  | Eol             \<comment> \<open>\<open>$\<close>\<close>

fun star :: "(rx_state \<Rightarrow> rx_state list) \<Rightarrow> nat \<Rightarrow> rx_state \<Rightarrow> rx_state list" where
  \<comment> \<open>At most \<open>n\<close> rounds of \<open>f\<close>, each taking at least one code unit (a round that takes
      nothing is refused, as in the language); the input left bounds the rounds.\<close>
  "star f 0 st = [st]"
| "star f (Suc n) st =
     concat (map (star f n) (filter (\<lambda>st'. length (fst st') < length (fst st)) (f st))) @ [st]"

fun run :: "jsstring \<Rightarrow> rx \<Rightarrow> rx_state \<Rightarrow> rx_state list" where
  \<comment> \<open>\<open>s\<close> is the whole input\<close>
  "run s (Lit p) st =
     (if startsWith (fst st) p then [(drop (length p) (fst st), snd st)] else [])"
| "run s (NotChr c) st =
     (case fst st of x # xs \<Rightarrow> if x \<noteq> c then [(xs, snd st)] else [] | [] \<Rightarrow> [])"
| "run s Dot st =
     (case fst st of x # xs \<Rightarrow> if isLineTerminator x then [] else [(xs, snd st)] | [] \<Rightarrow> [])"
| "run s (Cat a b) st = concat (map (run s b) (run s a st))"
| "run s (Opt a) st = run s a st @ [st]"
| "run s (Star a) st = star (run s a) (length (fst st)) st"
| "run s (Plus a) st =
     concat (map (\<lambda>st'. star (run s a) (length (fst st')) st') (run s a st))"
| "run s (Grp k a) st =
     map (\<lambda>st'. (fst st', (k, take (length (fst st) - length (fst st')) (fst st)) # snd st'))
       (run s a st)"
| "run s Bol st = (if length (fst st) = length s then [st] else [])"
| "run s Eol st = (if fst st = [] then [st] else [])"

definition rx_exec :: "rx \<Rightarrow> jsstring \<Rightarrow> (nat \<times> jsstring) list option" where
  \<comment> \<open>\<open>s.match(r)\<close> for an expression without the \<open>g\<close> flag: the preferred match at the
      first index that has one, as its groups; \<open>None\<close> for \<open>null\<close>\<close>
  "rx_exec r s =
     (case concat (map (\<lambda>i. run s r (drop i s, [])) [0..<Suc (length s)]) of
        [] \<Rightarrow> None
      | st # _ \<Rightarrow> Some (snd st))"

definition group :: "(nat \<times> jsstring) list \<Rightarrow> nat \<Rightarrow> jsstring" where
  \<comment> \<open>\<open>match[k]\<close>, for a group that took part in the match\<close>
  "group m k = (case map_of m k of Some t \<Rightarrow> t | None \<Rightarrow> [])"

section \<open>The URL parser (\<open>parseGitHubUrl\<close>)\<close>

definition slash :: jschar where
  "slash = 0x2F"

definition githubRegex :: rx where
  \<comment> \<open>\<open>/^https?:\/\/github\.com\/([^/]+)\/([^/]+)(?:\/.*)?$/\<close>\<close>
  "githubRegex =
     Cat Bol (Cat (Lit (js ''http'')) (Cat (Opt (Lit (js ''s'')))
       (Cat (Lit (js ''://github.com/''))
         (Cat (Grp 1 (Plus (NotChr slash)))
           (Cat (Lit (js ''/''))
             (Cat (Grp 2 (Plus (NotChr slash)))
               (Cat (Opt (Cat (Lit (js ''/'')) (Star Dot))) Eol)))))))"

definition strip_git :: "jsstring \<Rightarrow> jsstring" where
  \<comment> \<open>\<open>s.replace(/\.git$/, '')\<close>\<close>
  "strip_git s = (if endsWith s (js ''.git'') then take (length s - 4) s else s)"

record owner_repo =
  owner :: jsstring
  repo :: jsstring

definition parseGitHubUrl :: "jsstring \<Rightarrow> thrown + owner_repo" where
  "parseGitHubUrl url =
     (case rx_exec githubRegex url of
        None \<Rightarrow> Inl (Error (js ''Invalid GitHub URL format''))
      | Some match \<Rightarrow> Inr \<lparr>owner = group match 1, repo = strip_git (group match 2)\<rparr>)"

text \<open>
  The shape of the inputs the parser accepts, in words: a scheme \<open>http://\<close> or
  \<open>https://\<close>, the host \<open>github.com\<close>, a non-empty owner and a non-empty repository
  component without \<open>/\<close>, and then either nothing or a \<open>/\<close> followed by text without a
  line terminator.
\<close>

definition github_url_shape :: "jsstring \<Rightarrow> jsstring \<Rightarrow> jsstring \<Rightarrow> bool" where
  "github_url_shape url ow rp =
     (\<exists>scheme rest.
        (scheme = js ''http://'' \<or> scheme = js ''https://'') \<and>
        url = scheme @ js ''github.com/'' @ ow @ [slash] @ rp @ rest \<and>
        ow \<noteq> [] \<and> slash \<notin> set ow \<and> rp \<noteq> [] \<and> slash \<notin> set rp \<and>
        (rest = [] \<or> (\<exists>t. rest = slash # t \<and> \<not> list_ex isLineTerminator t)))"

text \<open>
  The match of \<open>githubRegex\<close> written as one pass over the input, without backtracking:
  a group \<open>[^/]+\<close> must be followed by \<open>/\<close> or by the end, so it is the whole run up to
  the next \<open>/\<close>. The proofs show that it finds the same groups.
\<close>

definition strip_prefix :: "jsstring \<Rightarrow> jsstring \<Rightarrow> jsstring option" where
  "strip_prefix p s = (if startsWith s p then Some (drop (length p) s) else None)"

definition scan_tail :: "jsstring \<Rightarrow> (jsstring \<times> jsstring) option" where
  \<comment> \<open>what follows the scheme\<close>
  "scan_tail s =
     (case strip_prefix (js ''://github.com/'') s of
        None \<Rightarrow> None
      | Some r \<Rightarrow>
          (let g1 = takeWhile (\<lambda>c. c \<noteq> slash) r;
               r1 = dropWhile (\<lambda>c. c \<noteq> slash) r
           in if g1 = [] then None
              else (case r1 of
                      [] \<Rightarrow> None
                    | _ # r2 \<Rightarrow>
                        (let g2 = takeWhile (\<lambda>c. c \<noteq> slash) r2;
                             r3 = dropWhile (\<lambda>c. c \<noteq> slash) r2
                         in if g2 = [] then None
                            else (case r3 of
                                    [] \<Rightarrow> Some (g1, g2)
                                  | _ # rest \<Rightarrow>
                                      if list_ex isLineTerminator rest then None
                                      else Some (g1, g2))))))"

definition scan_url :: "jsstring \<Rightarrow> (jsstring \<times> jsstring) option" where
  "scan_url url =
     (case strip_prefix (js ''http'') url of
        None \<Rightarrow> None
      | Some r \<Rightarrow>
          (case (case strip_prefix (js ''s'') r of
                   None \<Rightarrow> None
                 | Some r' \<Rightarrow> scan_tail r') of
             Some m \<Rightarrow> Some m
           | None \<Rightarrow> scan_tail r))"

section \<open>The environment: random numbers, the clock, the platform\<close>

text \<open>
  \<open>Math.random()\<close> returns a number that is at least 0 and less than 1; the type
  \<open>unit_real\<close> holds exactly these values. Products with the small integer constants of
  the source and \<open>Math.floor\<close> are taken over the reals.
\<close>

typedef unit_real = "{r::real. 0 \<le> r \<and> r < 1}"
  morphisms real_of_unit unit_of_real
  by (rule exI[of _ 0]) simp

setup_lifting type_definition_unit_real

lift_definition unit_frac :: "real \<Rightarrow> unit_real" is "\<lambda>x. x - of_int \<lfloor>x\<rfloor>"
  by linarith

text \<open>
  The environment fixes what the outside world answers:
  \<^item> the value of the \<open>k\<close>-th call of \<open>Math.random()\<close> and of \<open>Date.now()\<close>;
  \<^item> the two number formats of the platform that the source uses as they are
    (\<open>Number.prototype.toString(36)\<close> on a fraction and \<open>Date.prototype.toISOString\<close>
    on a time in milliseconds);
  \<^item> whether the \<open>k\<close>-th call of the persistence gateway resolves (\<open>None\<close>) or rejects
    with a value;
  \<^item> what \<open>blink.auth.me()\<close> gives: the user's id, or a rejection;
  \<^item> what the \<open>k\<close>-th call of the text generator gives: the text, or a rejection;
  \<^item> the order in which the store lists lessons when the caller asks for none.
\<close>

record lesson_row =
  l_id :: jsstring
  l_commitId :: jsstring
  l_title :: jsstring
  l_content :: jsstring
  l_summary :: jsstring
  l_keyConcepts :: jsstring
  l_difficultyLevel :: jsstring
  l_estimatedReadingTime :: int
  l_status :: jsstring

record env =
  random :: "nat \<Rightarrow> unit_real"
  now :: "nat \<Rightarrow> int"
  toString36 :: "real \<Rightarrow> jsstring"
  toISOString :: "int \<Rightarrow> jsstring"
  gateway :: "nat \<Rightarrow> thrown option"
  me :: "thrown + jsstring"
  generateText :: "nat \<Rightarrow> thrown + jsstring"
  lessons_order :: "lesson_row list \<Rightarrow> lesson_row list"

text \<open>The world counts the calls made so far.\<close>

record world =
  rcalls :: nat
  ccalls :: nat

definition MathRandom :: "env \<Rightarrow> 'a world_scheme \<Rightarrow> real \<times> 'a world_scheme" where
  "MathRandom e w = (real_of_unit (random e (rcalls w)), w\<lparr>rcalls := Suc (rcalls w)\<rparr>)"

definition floorRandom :: "env \<Rightarrow> nat \<Rightarrow> 'a world_scheme \<Rightarrow> int \<times> 'a world_scheme" where
  \<comment> \<open>\<open>Math.floor(Math.random() * n)\<close>\<close>
  "floorRandom e n w = (case MathRandom e w of (r, w') \<Rightarrow> (\<lfloor>r * real n\<rfloor>, w'))"

definition DateNow :: "env \<Rightarrow> 'a world_scheme \<Rightarrow> int \<times> 'a world_scheme" where
  "DateNow e w = (now e (ccalls w), w\<lparr>ccalls := Suc (ccalls w)\<rparr>)"

section \<open>The commit generator (\<open>simulateCommitData\<close>)\<close>

record commit =
  c_id :: jsstring
  c_sha :: jsstring
  c_message :: jsstring
  c_authorName :: jsstring
  c_authorEmail :: jsstring
  c_date :: jsstring
  c_filesChanged :: int
  c_additions :: int
  c_deletions :: int
  c_commitOrder :: int

definition commitMessages :: "jsstring list" where
  "commitMessages = map js
     [''Initial commit'',
      ''Add basic project structure'',
      ''Implement core functionality'',
      ''Add user authentication'',
      ''Fix authentication bugs'',
      ''Add database integration'',
      ''Implement API endpoints'',
      ''Add error handling'',
      ''Update documentation'',
      ''Optimize performance'',
      ''Add unit tests'',
      ''Fix security vulnerabilities'',
      ''Update dependencies'',
      ''Add new features'',
      ''Final cleanup and release'']"

definition authors :: "jsstring list" where
  "authors = map js [''John Doe'', ''Jane Smith'', ''Mike Johnson'', ''Sarah Wilson'']"

definition commit_body :: "env \<Rightarrow> nat \<Rightarrow> 'a world_scheme \<Rightarrow> commit \<times> 'a world_scheme" where
  \<comment> \<open>One round of the loop, for the index \<open>i\<close>; the calls are in the order in which
      JavaScript evaluates them.\<close>
  "commit_body e i w0 =
     (case floorRandom e (length authors) w0 of (a, w1) \<Rightarrow>
      case DateNow e w1 of (t_date, w2) \<Rightarrow>
      case DateNow e w2 of (t_id, w3) \<Rightarrow>
      case MathRandom e w3 of (r_sha, w4) \<Rightarrow>
      case floorRandom e 10 w4 of (fc, w5) \<Rightarrow>
      case floorRandom e 100 w5 of (ad, w6) \<Rightarrow>
      case floorRandom e 50 w6 of (de, w7) \<Rightarrow>
        (let author = authors ! nat a;
             date = t_date - (int (length commitMessages) - int i) * 24 * 60 * 60 * 1000
         in (\<lparr>c_id = js ''commit_'' @ numToString t_id @ js ''_'' @ numToString (int i),
              c_sha = substring 2 10 (toString36 e r_sha),
              c_message = commitMessages ! i,
              c_authorName = author,
              c_authorEmail =
                replace_first 0x20 (js ''.'') (toLowerCase author) @ js ''@example.com'',
              c_date = toISOString e date,
              c_filesChanged = fc + 1,
              c_additions = ad + 10,
              c_deletions = de + 1,
              c_commitOrder = int i + 1\<rparr>, w7)))"

function simulateCommitData_loop ::
  "env \<Rightarrow> nat \<Rightarrow> commit list \<Rightarrow> 'a world_scheme \<Rightarrow> commit list \<times> 'a world_scheme" where
  "simulateCommitData_loop e i commits w =
     (if i < min (length commitMessages) 10
      then (case commit_body e i w of (c, w') \<Rightarrow>
              simulateCommitData_loop e (Suc i) (commits @ [c]) w')
      else (commits, w))"
  by pat_completeness auto
termination
  by (relation "measure (\<lambda>(e, i, commits, w). min (length commitMessages) 10 - i)") auto

definition simulateCommitData ::
  "env \<Rightarrow> jsstring \<Rightarrow> jsstring \<Rightarrow> 'a world_scheme \<Rightarrow> commit list \<times> 'a world_scheme" where
  \<comment> \<open>The source takes \<open>repoName\<close> and \<open>owner\<close> and uses neither.\<close>
  "simulateCommitData e repoName owner' w = simulateCommitData_loop e 0 [] w"

section \<open>The file generator (\<open>simulateCommitFiles\<close>)\<close>

record commit_file =
  f_id :: jsstring
  f_commitId :: jsstring
  f_filename :: jsstring
  f_status :: jsstring
  f_additions :: int
  f_deletions :: int
  f_patch :: jsstring

definition fileExtensions :: "jsstring list" where
  "fileExtensions = map js [''.js'', ''.ts'', ''.tsx'', ''.css'', ''.html'', ''.md'', ''.json'']"

definition fileNames :: "jsstring list" where
  "fileNames = map js [''index'', ''app'', ''component'', ''utils'', ''config'', ''styles'', ''readme'']"

definition statuses :: "jsstring list" where
  "statuses = map js [''added'', ''modified'', ''deleted'']"

definition nl :: jsstring where
  "nl = [0x0A]"

definition patch_text ::
  "env \<Rightarrow> jsstring \<Rightarrow> jsstring \<Rightarrow> jsstring \<Rightarrow> 'a world_scheme \<Rightarrow> jsstring \<times> 'a world_scheme" where
  \<comment> \<open>The three template literals; \<open>Array(n).fill(0).map(() => l).join('\n')\<close> is \<open>n\<close>
      copies of the line joined by line feeds.\<close>
  "patch_text e status fileName extension w0 =
     (if status = js ''added'' then
        (case floorRandom e 20 w0 of (h, w1) \<Rightarrow>
         case floorRandom e 10 w1 of (n, w2) \<Rightarrow>
           (js ''+++ b/'' @ fileName @ extension @ nl @
            js ''@@ -0,0 +1,'' @ numToString (h + 5) @ js '' @@'' @ nl @
            join nl (replicate (nat (n + 3)) (js ''+  // New line of code'')), w2))
      else if status = js ''deleted'' then
        (case floorRandom e 20 w0 of (h, w1) \<Rightarrow>
         case floorRandom e 10 w1 of (n, w2) \<Rightarrow>
           (js ''--- a/'' @ fileName @ extension @ nl @
            js ''@@ -1,'' @ numToString (h + 5) @ js '' +0,0 @@'' @ nl @
            join nl (replicate (nat (n + 3)) (js ''-  // Removed line of code'')), w2))
      else
        (case floorRandom e 10 w0 of (a, w1) \<Rightarrow>
         case floorRandom e 5 w1 of (b, w2) \<Rightarrow>
         case floorRandom e 10 w2 of (c, w3) \<Rightarrow>
         case floorRandom e 5 w3 of (d, w4) \<Rightarrow>
           (js ''--- a/'' @ fileName @ extension @ nl @
            js ''+++ b/'' @ fileName @ extension @ nl @
            js ''@@ -'' @ numToString (a + 1) @ js '','' @ numToString (b + 3) @
            js '' +'' @ numToString (c + 1) @ js '','' @ numToString (d + 3) @ js '' @@'' @ nl @
            js ''-  // Old line of code'' @ nl @ js ''+  // New line of code'', w4)))"

definition file_body ::
  "env \<Rightarrow> jsstring \<Rightarrow> int \<Rightarrow> 'a world_scheme \<Rightarrow> commit_file \<times> 'a world_scheme" where
  \<comment> \<open>One round of the loop, for the index \<open>i\<close>.\<close>
  "file_body e commitId i w0 =
     (case floorRandom e (length fileNames) w0 of (k1, w1) \<Rightarrow>
      case floorRandom e (length fileExtensions) w1 of (k2, w2) \<Rightarrow>
      case floorRandom e (length statuses) w2 of (k3, w3) \<Rightarrow>
        (let fileName = fileNames ! nat k1;
             extension = fileExtensions ! nat k2;
             status = statuses ! nat k3
         in case patch_text e status fileName extension w3 of (patch, w4) \<Rightarrow>
            case DateNow e w4 of (t_id, w5) \<Rightarrow>
            case (if status = js ''deleted'' then (0, w5)
                  else (case floorRandom e 20 w5 of (x, w') \<Rightarrow> (x + 1, w'))) of (ad, w6) \<Rightarrow>
            case (if status = js ''added'' then (0, w6)
                  else (case floorRandom e 10 w6 of (x, w') \<Rightarrow> (x + 1, w'))) of (de, w7) \<Rightarrow>
              (\<lparr>f_id = js ''file_'' @ numToString t_id @ js ''_'' @ numToString i,
                f_commitId = commitId,
                f_filename = fileName @ extension,
                f_status = status,
                f_additions = ad,
                f_deletions = de,
                f_patch = patch\<rparr>, w7)))"

text \<open>
  \<open>filesChanged\<close> is a count; it is an integer here, so that the loop's test \<open>i < filesChanged\<close>
  is also defined where the count is negative.
\<close>

function simulateCommitFiles_loop ::
  "env \<Rightarrow> jsstring \<Rightarrow> int \<Rightarrow> int \<Rightarrow> commit_file list \<Rightarrow> 'a world_scheme \<Rightarrow>
     commit_file list \<times> 'a world_scheme" where
  "simulateCommitFiles_loop e commitId filesChanged i files w =
     (if i < filesChanged
      then (case file_body e commitId i w of (f, w') \<Rightarrow>
              simulateCommitFiles_loop e commitId filesChanged (i + 1) (files @ [f]) w')
      else (files, w))"
  by pat_completeness auto
termination
  by (relation "measure (\<lambda>(e, commitId, filesChanged, i, files, w). nat (filesChanged - i))") auto

definition simulateCommitFiles ::
  "env \<Rightarrow> jsstring \<Rightarrow> int \<Rightarrow> 'a world_scheme \<Rightarrow> commit_file list \<times> 'a world_scheme" where
  "simulateCommitFiles e commitId filesChanged w =
     simulateCommitFiles_loop e commitId filesChanged 0 [] w"

section \<open>The diff line classifier (\<open>formatPatch\<close>)\<close>

record patch_line =
  pl_id :: nat
  pl_content :: jsstring
  pl_className :: jsstring
  pl_prefix :: jsstring
  pl_originalLine :: jsstring

definition format_line :: "jsstring \<Rightarrow> nat \<Rightarrow> patch_line" where
  \<comment> \<open>the function mapped over the lines\<close>
  "format_line line index =
     (case (if startsWith line (js ''+++'') \<or> startsWith line (js ''---'')
            then (js ''text-slate-500 font-medium'', [])
            else if startsWith line (js ''@@'')
            then (js ''text-blue-600 font-medium bg-blue-50'', [])
            else if startsWith line (js ''+'')
            then (js ''text-green-700 bg-green-50'', js ''+'')
            else if startsWith line (js ''-'')
            then (js ''text-red-700 bg-red-50'', js ''-'')
            else if startsWith line (js '' '')
            then (js ''text-slate-700'', js '' '')
            else (js ''text-slate-700'', [])) of
        (className, prefix') \<Rightarrow>
          \<lparr>pl_id = index,
           pl_content = drop (if prefix' \<noteq> [] then 1 else 0) line,
           pl_className = className,
           pl_prefix = prefix',
           pl_originalLine = line\<rparr>)"

definition formatPatch :: "jsstring \<Rightarrow> patch_line list" where
  "formatPatch patch =
     (if patch = [] then []
      else (let lines = split 0x0A patch
            in map (\<lambda>(line, index). format_line line index) (zip lines [0..<length lines])))"

text \<open>
  The classes of a line in words: a line beginning with \<open>+++\<close> or \<open>---\<close> is a file header,
  otherwise one beginning with \<open>@@\<close> is a hunk header, otherwise one beginning with \<open>+\<close> is
  an addition, otherwise one beginning with \<open>-\<close> is a deletion, otherwise it is context.
\<close>

datatype line_class = FileHeader | HunkHeader | Addition | Deletion | Context

definition class_in_words :: "jsstring \<Rightarrow> line_class" where
  "class_in_words line =
     (if prefix (js ''+++'') line \<or> prefix (js ''---'') line then FileHeader
      else if prefix (js ''@@'') line then HunkHeader
      else if prefix (js ''+'') line then Addition
      else if prefix (js ''-'') line then Deletion
      else Context)"

text \<open>The class a formatted line is shown in, read off its style.\<close>

definition shown_class :: "patch_line \<Rightarrow> line_class option" where
  "shown_class l =
     (if pl_className l = js ''text-slate-500 font-medium'' then Some FileHeader
      else if pl_className l = js ''text-blue-600 font-medium bg-blue-50'' then Some HunkHeader
      else if pl_className l = js ''text-green-700 bg-green-50'' then Some Addition
      else if pl_className l = js ''text-red-700 bg-red-50'' then Some Deletion
      else if pl_className l = js ''text-slate-700'' then Some Context
      else None)"

section \<open>The persistence gateway\<close>

text \<open>
  The store is reached through \<open>blink.db\<close>, by \<open>create\<close>, \<open>update\<close> and \<open>list\<close>; the
  client module is not among the sources. Here a table is the list of its rows in the order
  of their creation, \<open>create\<close> adds a row at the end, \<open>update\<close> sets the given fields of
  the rows with the given id, and \<open>list\<close> gives the rows whose owner is the given one. A
  call that rejects changes nothing. The session keeps, next to the store, the writes
  that resolved, in order.
\<close>

record repository_row =
  r_id :: jsstring
  r_user_id :: jsstring
  r_name :: jsstring
  r_full_name :: jsstring
  r_url :: jsstring
  r_description :: jsstring
  r_default_branch :: jsstring
  r_total_commits :: int
  r_analysis_status :: jsstring

record commit_row =
  cr_id :: jsstring
  cr_repository_id :: jsstring
  cr_sha :: jsstring
  cr_message :: jsstring
  cr_author_name :: jsstring
  cr_author_email :: jsstring
  cr_date :: jsstring
  cr_files_changed :: int
  cr_additions :: int
  cr_deletions :: int
  cr_commit_order :: int

record commit_file_row =
  fr_id :: jsstring
  fr_commit_id :: jsstring
  fr_filename :: jsstring
  fr_status :: jsstring
  fr_additions :: int
  fr_deletions :: int
  fr_patch :: jsstring

record db =
  repositories :: "repository_row list"
  commits :: "commit_row list"
  commit_files :: "commit_file_row list"
  lessons :: "lesson_row list"

datatype write_op =
    CreateRepository repository_row
  | CreateCommit commit_row
  | CreateCommitFile commit_file_row
  | UpdateRepository jsstring int jsstring
  | CreateLesson lesson_row

fun apply_write :: "write_op \<Rightarrow> db \<Rightarrow> db" where
  \<comment> \<open>Modelled from the spec: the collections behind \<open>blink.db\<close> (the client module is
      missing), with \<open>create(record)\<close> and \<open>update(id, partial)\<close>.\<close>
  "apply_write (CreateRepository r) d = d\<lparr>repositories := repositories d @ [r]\<rparr>"
| "apply_write (CreateCommit c) d = d\<lparr>commits := commits d @ [c]\<rparr>"
| "apply_write (CreateCommitFile f) d = d\<lparr>commit_files := commit_files d @ [f]\<rparr>"
| "apply_write (UpdateRepository rid n st) d =
     d\<lparr>repositories :=
         map (\<lambda>r. if r_id r = rid then r\<lparr>r_total_commits := n, r_analysis_status := st\<rparr> else r)
           (repositories d)\<rparr>"
| "apply_write (CreateLesson l) d = d\<lparr>lessons := lessons d @ [l]\<rparr>"

record toast =
  t_title :: jsstring
  t_description :: jsstring
  t_variant :: "jsstring option"

record session = world +
  gcalls :: nat
  acalls :: nat
  store :: db
  writes :: "write_op list"
  toasts :: "toast list"
  console :: "thrown list"

definition db_write ::
  "env \<Rightarrow> write_op \<Rightarrow> 'a session_scheme \<Rightarrow> (thrown + unit) \<times> 'a session_scheme" where
  \<comment> \<open>Modelled from the spec: a call of \<open>create\<close> or \<open>update\<close> of the missing client; it
      resolves and writes, or rejects, as the environment says.\<close>
  "db_write e wr w =
     (case gateway e (gcalls w) of
        Some err \<Rightarrow> (Inl err, w\<lparr>gcalls := Suc (gcalls w)\<rparr>)
      | None \<Rightarrow>
          (Inr (), w\<lparr>gcalls := Suc (gcalls w),
                     store := apply_write wr (store w),
                     writes := writes w @ [wr]\<rparr>))"

definition db_list_lessons ::
  "env \<Rightarrow> jsstring \<Rightarrow> nat \<Rightarrow> 'a session_scheme \<Rightarrow> (thrown + lesson_row list) \<times> 'a session_scheme" where
  \<comment> \<open>Modelled from the spec: \<open>list(filter, ordering, limit)\<close> of the missing client, as
      called by \<open>blink.db.lessons.list({ where: { commitId }, limit })\<close>: equality on the
      owner, no ordering asked for (the order is the store's own), then the limit.\<close>
  "db_list_lessons e commitId limit w =
     (case gateway e (gcalls w) of
        Some err \<Rightarrow> (Inl err, w\<lparr>gcalls := Suc (gcalls w)\<rparr>)
      | None \<Rightarrow>
          (Inr (take limit (lessons_order e (filter (\<lambda>l. l_commitId l = commitId) (lessons (store w))))),
           w\<lparr>gcalls := Suc (gcalls w)\<rparr>))"

definition db_list_commit_files ::
  "env \<Rightarrow> jsstring \<Rightarrow> 'a session_scheme \<Rightarrow> (thrown + commit_file_row list) \<times> 'a session_scheme" where
  \<comment> \<open>Modelled from the spec: \<open>list(filter, ordering, limit)\<close> of the missing client, as
      called by \<open>blink.db.commitFiles.list({ where: { commitId } })\<close>.\<close>
  "db_list_commit_files e commitId w =
     (case gateway e (gcalls w) of
        Some err \<Rightarrow> (Inl err, w\<lparr>gcalls := Suc (gcalls w)\<rparr>)
      | None \<Rightarrow>
          (Inr (filter (\<lambda>f. fr_commit_id f = commitId) (commit_files (store w))),
           w\<lparr>gcalls := Suc (gcalls w)\<rparr>))"

section \<open>The intake flow (\<open>analyzeRepository\<close>)\<close>

record repository =
  rp_id :: jsstring
  rp_name :: jsstring
  rp_fullName :: jsstring
  rp_url :: jsstring
  rp_description :: jsstring
  rp_defaultBranch :: jsstring
  rp_totalCommits :: int
  rp_analysisStatus :: jsstring

record analyzer = session +
  analyzing :: bool
  progress :: real
  currentStep :: jsstring
  error :: jsstring
  analyzed :: "repository list"

definition commit_row_of :: "jsstring \<Rightarrow> commit \<Rightarrow> commit_row" where
  "commit_row_of repositoryId c =
     \<lparr>cr_id = c_id c, cr_repository_id = repositoryId, cr_sha = c_sha c,
      cr_message = c_message c, cr_author_name = c_authorName c,
      cr_author_email = c_authorEmail c, cr_date = c_date c,
      cr_files_changed = c_filesChanged c, cr_additions = c_additions c,
      cr_deletions = c_deletions c, cr_commit_order = c_commitOrder c\<rparr>"

definition file_row_of :: "commit_file \<Rightarrow> commit_file_row" where
  "file_row_of f =
     \<lparr>fr_id = f_id f, fr_commit_id = f_commitId f, fr_filename = f_filename f,
      fr_status = f_status f, fr_additions = f_additions f, fr_deletions = f_deletions f,
      fr_patch = f_patch f\<rparr>"

fun persist_files ::
  "env \<Rightarrow> commit_file list \<Rightarrow> 'a session_scheme \<Rightarrow> (thrown + unit) \<times> 'a session_scheme" where
  \<comment> \<open>\<open>for (const file of files) await blink.db.commit_files.create({...})\<close>\<close>
  "persist_files e [] w = (Inr (), w)"
| "persist_files e (file # files) w =
     (case db_write e (CreateCommitFile (file_row_of file)) w of
        (Inl err, w') \<Rightarrow> (Inl err, w')
      | (Inr _, w') \<Rightarrow> persist_files e files w')"

function persist_commits ::
  "env \<Rightarrow> jsstring \<Rightarrow> commit list \<Rightarrow> nat \<Rightarrow> 'a analyzer_scheme \<Rightarrow>
     (thrown + unit) \<times> 'a analyzer_scheme" where
  "persist_commits e repositoryId cs i w =
     (if i < length cs then
        (case db_write e (CreateCommit (commit_row_of repositoryId (cs ! i))) w of
           (Inl err, w1) \<Rightarrow> (Inl err, w1)
         | (Inr _, w1) \<Rightarrow>
             (case simulateCommitFiles e (c_id (cs ! i)) (c_filesChanged (cs ! i)) w1 of
                (files, w2) \<Rightarrow>
                  (case persist_files e files w2 of
                     (Inl err, w3) \<Rightarrow> (Inl err, w3)
                   | (Inr _, w3) \<Rightarrow>
                       persist_commits e repositoryId cs (Suc i)
                         (w3\<lparr>progress := 60 + (real i / real (length cs)) * 30\<rparr>))))
      else (Inr (), w))"
  by pat_completeness auto
termination
  by (relation "measure (\<lambda>(e, repositoryId, cs, i, w). length cs - i)") auto

definition analyze_try ::
  "env \<Rightarrow> jsstring \<Rightarrow> 'a analyzer_scheme \<Rightarrow> (thrown + repository) \<times> 'a analyzer_scheme" where
  \<comment> \<open>The body of \<open>try\<close>: \<open>Inl\<close> is the value thrown, \<open>Inr\<close> the repository handed to
      \<open>onRepositoryAnalyzed\<close>. The two waits (\<open>setTimeout\<close>) change nothing.\<close>
  "analyze_try e url w0 =
     (let w1 = w0\<lparr>analyzing := True, progress := 0, currentStep := js ''Parsing repository URL...'',
                   error := []\<rparr>
      in case parseGitHubUrl (trim url) of
           Inl err \<Rightarrow> (Inl err, w1)
         | Inr p \<Rightarrow>
      (let w2 = w1\<lparr>progress := 20, currentStep := js ''Creating repository record...''\<rparr>
       in case DateNow e w2 of (t, w3) \<Rightarrow>
          case MathRandom e w3 of (r, w4) \<Rightarrow>
      (let repositoryId = js ''repo_'' @ numToString t @ js ''_'' @ substr 2 9 (toString36 e r)
       in case me e of
            Inl err \<Rightarrow> (Inl err, w4)
          | Inr user_id \<Rightarrow>
      (case db_write e
              (CreateRepository
                 \<lparr>r_id = repositoryId, r_user_id = user_id, r_name = repo p,
                  r_full_name = owner p @ js ''/'' @ repo p, r_url = trim url,
                  r_description = js ''Repository '' @ repo p @ js '' by '' @ owner p,
                  r_default_branch = js ''main'', r_total_commits = 0,
                  r_analysis_status = js ''analyzing''\<rparr>) w4 of
         (Inl err, w5) \<Rightarrow> (Inl err, w5)
       | (Inr _, w5) \<Rightarrow>
      (let w6 = w5\<lparr>progress := 40, currentStep := js ''Fetching commit history...''\<rparr>
       in case simulateCommitData e (repo p) (owner p) w6 of (cs, w7) \<Rightarrow>
      (let w8 = w7\<lparr>progress := 60,
                    currentStep := js ''Processing commits and generating diffs...''\<rparr>
       in case persist_commits e repositoryId cs 0 w8 of
            (Inl err, w9) \<Rightarrow> (Inl err, w9)
          | (Inr _, w9) \<Rightarrow>
      (let w10 = w9\<lparr>progress := 90, currentStep := js ''Finalizing analysis...''\<rparr>
       in case db_write e (UpdateRepository repositoryId (int (length cs)) (js ''completed'')) w10 of
            (Inl err, w11) \<Rightarrow> (Inl err, w11)
          | (Inr _, w11) \<Rightarrow>
      (let w12 = w11\<lparr>progress := 100, currentStep := js ''Analysis complete!''\<rparr>;
           finalRepository =
             \<lparr>rp_id = repositoryId, rp_name = repo p,
              rp_fullName = owner p @ js ''/'' @ repo p, rp_url = trim url,
              rp_description = js ''Repository '' @ repo p @ js '' by '' @ owner p,
              rp_defaultBranch = js ''main'', rp_totalCommits = int (length cs),
              rp_analysisStatus = js ''completed''\<rparr>
       in (Inr finalRepository,
           w12\<lparr>analyzed := analyzed w12 @ [finalRepository],
                toasts := toasts w12 @
                  [\<lparr>t_title = js ''Analysis Complete'',
                    t_description = js ''Successfully analyzed '' @ numToString (int (length cs)) @
                                    js '' commits from '' @ repo p,
                    t_variant = None\<rparr>]\<rparr>)))))))))"

definition analyzeRepository :: "env \<Rightarrow> jsstring \<Rightarrow> 'a analyzer_scheme \<Rightarrow> 'a analyzer_scheme" where
  \<comment> \<open>\<open>url\<close> is the text of the input field; \<open>catch\<close> and \<open>finally\<close> follow the body\<close>
  "analyzeRepository e url w =
     (if trim url = [] then w\<lparr>error := js ''Please enter a GitHub repository URL''\<rparr>
      else
        (let w' = (case analyze_try e url w of
                     (Inr _, w1) \<Rightarrow> w1
                   | (Inl err, w1) \<Rightarrow>
                       w1\<lparr>console := console w1 @ [err],
                          error := (case err of Error m \<Rightarrow> m
                                    | NonError \<Rightarrow> js ''Failed to analyze repository''),
                          toasts := toasts w1 @
                            [\<lparr>t_title = js ''Analysis Failed'',
                              t_description = js ''Please check the URL and try again'',
                              t_variant = Some (js ''destructive'')\<rparr>]\<rparr>)
         in w'\<lparr>analyzing := False, progress := 0, currentStep := []\<rparr>))"

section \<open>The lesson panel (\<open>loadLesson\<close>, \<open>generateLesson\<close>)\<close>

record lesson =
  ls_id :: jsstring
  ls_title :: jsstring
  ls_content :: jsstring
  ls_summary :: jsstring
  ls_keyConcepts :: jsstring
  ls_difficultyLevel :: jsstring
  ls_estimatedReadingTime :: int
  ls_status :: jsstring

record panel = session +
  lesson :: "lesson option"
  loading :: bool
  generating :: bool

definition or_else :: "jsstring \<Rightarrow> jsstring \<Rightarrow> jsstring" where
  \<comment> \<open>\<open>x || d\<close> on strings: the empty string counts as absent\<close>
  "or_else x d = (if x = [] then d else x)"

definition lesson_of_row :: "lesson_row \<Rightarrow> lesson" where
  "lesson_of_row lessonData =
     \<lparr>ls_id = l_id lessonData,
      ls_title = l_title lessonData,
      ls_content = l_content lessonData,
      ls_summary = or_else (l_summary lessonData) [],
      ls_keyConcepts = or_else (l_keyConcepts lessonData) [],
      ls_difficultyLevel = or_else (l_difficultyLevel lessonData) (js ''beginner''),
      ls_estimatedReadingTime =
        (if l_estimatedReadingTime lessonData = 0 then 5 else l_estimatedReadingTime lessonData),
      ls_status = or_else (l_status lessonData) (js ''generated'')\<rparr>"

definition loadLesson :: "env \<Rightarrow> commit \<Rightarrow> 'a panel_scheme \<Rightarrow> 'a panel_scheme" where
  "loadLesson e commit w0 =
     (let w1 = w0\<lparr>loading := True\<rparr>;
          w' = (case db_list_lessons e (c_id commit) 1 w1 of
                  (Inr lessonsData, w2) \<Rightarrow>
                    (case lessonsData of
                       lessonData # _ \<Rightarrow> w2\<lparr>lesson := Some (lesson_of_row lessonData)\<rparr>
                     | [] \<Rightarrow> w2\<lparr>lesson := None\<rparr>)
                | (Inl err, w2) \<Rightarrow>
                    w2\<lparr>console := console w2 @ [err],
                       toasts := toasts w2 @
                         [\<lparr>t_title = js ''Error'',
                           t_description = js ''Failed to load lesson'',
                           t_variant = Some (js ''destructive'')\<rparr>]\<rparr>)
      in w'\<lparr>loading := False\<rparr>)"

definition generate_try ::
  "env \<Rightarrow> commit \<Rightarrow> 'a panel_scheme \<Rightarrow> (thrown + unit) \<times> 'a panel_scheme" where
  \<comment> \<open>The body of \<open>try\<close>. The prompt, put together from the commit and the files listed,
      goes to the text generator and nowhere else; the environment fixes the answer.\<close>
  "generate_try e commit w0 =
     (case db_list_commit_files e (c_id commit) w0 of
        (Inl err, w1) \<Rightarrow> (Inl err, w1)
      | (Inr filesData, w1) \<Rightarrow>
     (let w2 = w1\<lparr>acalls := Suc (acalls w1)\<rparr>
      in case generateText e (acalls w1) of
           Inl err \<Rightarrow> (Inl err, w2)
         | Inr text \<Rightarrow>
     (case DateNow e w2 of (t, w3) \<Rightarrow>
      case MathRandom e w3 of (r, w4) \<Rightarrow>
     (let lessonId = js ''lesson_'' @ numToString t @ js ''_'' @ substr 2 9 (toString36 e r);
          title = js ''Understanding: '' @ c_message commit;
          summary = js ''Learn about the changes made in commit '' @ substring 0 8 (c_sha commit);
          minutes = \<lceil>real (length text) / 200\<rceil>
      in case db_write e
                (CreateLesson
                   \<lparr>l_id = lessonId, l_commitId = c_id commit, l_title = title,
                    l_content = text, l_summary = summary,
                    l_keyConcepts = js ''Git, Version Control, Code Analysis'',
                    l_difficultyLevel = js ''intermediate'',
                    l_estimatedReadingTime = minutes,
                    l_status = js ''generated''\<rparr>) w4 of
           (Inl err, w5) \<Rightarrow> (Inl err, w5)
         | (Inr _, w5) \<Rightarrow>
             (Inr (),
              w5\<lparr>lesson :=
                   Some \<lparr>ls_id = lessonId, ls_title = title, ls_content = text,
                         ls_summary = summary,
                         ls_keyConcepts = js ''Git, Version Control, Code Analysis'',
                         ls_difficultyLevel = js ''intermediate'',
                         ls_estimatedReadingTime = minutes,
                         ls_status = js ''generated''\<rparr>,
                 toasts := toasts w5 @
                   [\<lparr>t_title = js ''Lesson Generated'',
                     t_description = js ''AI has created a detailed lesson for this commit'',
                     t_variant = None\<rparr>]\<rparr>)))))"

definition generateLesson :: "env \<Rightarrow> commit \<Rightarrow> 'a panel_scheme \<Rightarrow> 'a panel_scheme" where
  "generateLesson e commit w0 =
     (let w' = (case generate_try e commit (w0\<lparr>generating := True\<rparr>) of
                  (Inr _, w1) \<Rightarrow> w1
                | (Inl err, w1) \<Rightarrow>
                    w1\<lparr>console := console w1 @ [err],
                       toasts := toasts w1 @
                         [\<lparr>t_title = js ''Generation Failed'',
                           t_description = js ''Failed to generate lesson. Please try again.'',
                           t_variant = Some (js ''destructive'')\<rparr>]\<rparr>)
      in w'\<lparr>generating := False\<rparr>)"

section \<open>Properties in words, and sample inputs\<close>

text \<open>The size bounds of a generated commit.\<close>

definition commit_in_bounds :: "commit \<Rightarrow> bool" where
  "commit_in_bounds c =
     (1 \<le> c_filesChanged c \<and> c_filesChanged c \<le> 10 \<and>
      10 \<le> c_additions c \<and> c_additions c \<le> 109 \<and>
      1 \<le> c_deletions c \<and> c_deletions c \<le> 50)"

text \<open>The counts of a generated file agree with its status.\<close>

definition file_counts_ok :: "commit_file \<Rightarrow> bool" where
  "file_counts_ok f =
     ((f_status f = js ''added'' \<longrightarrow> f_deletions f = 0) \<and>
      (f_status f = js ''deleted'' \<longrightarrow> f_additions f = 0) \<and>
      0 \<le> f_additions f \<and> 0 \<le> f_deletions f)"

text \<open>
  A sample environment: the \<open>k\<close>-th random number is the fractional part of \<open>k / 7\<close>, the
  clock advances by a millisecond per call, every gateway call resolves, the text
  generator answers, and the store lists lessons in the order of their creation.
\<close>

definition demo_env :: env where
  "demo_env =
     \<lparr>random = (\<lambda>k. unit_frac (real k / 7)),
      now = (\<lambda>k. 1700000000000 + int k),
      toString36 = (\<lambda>_. js ''0.k9x2m4q7w1z''),
      toISOString = (\<lambda>_. js ''2023-11-14T22:13:20.000Z''),
      gateway = (\<lambda>_. None),
      me = Inr (js ''user_1''),
      generateText = (\<lambda>k. Inr (if k = 0 then js ''first lesson'' else js ''second lesson'')),
      lessons_order = (\<lambda>rows. rows)\<rparr>"

definition demo_world :: world where
  "demo_world = \<lparr>rcalls = 0, ccalls = 0\<rparr>"

text \<open>Two worlds that differ at most in the counts of the calls of \<open>Math.random()\<close> and
  \<open>Date.now()\<close>.\<close>

definition only_calls :: "'a world_scheme \<Rightarrow> 'a world_scheme \<Rightarrow> bool" where
  "only_calls w w' = (\<exists>a b. w' = w\<lparr>rcalls := a, ccalls := b\<rparr>)"

text \<open>The effect of a sequence of writes on the store.\<close>

definition apply_writes :: "write_op list \<Rightarrow> db \<Rightarrow> db" where
  "apply_writes ws d = foldl (\<lambda>d wr. apply_write wr d) d ws"

text \<open>
  From \<open>w\<close> to \<open>w'\<close> the gateway calls were exactly the writes \<open>ws\<close>, in this order, and
  all of them resolved (\<open>resolved\<close>); or they resolved and one more call was made, which
  rejected with \<open>err\<close> (\<open>rejected\<close>).
\<close>

definition resolved :: "env \<Rightarrow> 'a session_scheme \<Rightarrow> write_op list \<Rightarrow> 'a session_scheme \<Rightarrow> bool" where
  "resolved e w ws w' =
     (writes w' = writes w @ ws \<and>
      store w' = apply_writes ws (store w) \<and>
      gcalls w' = gcalls w + length ws \<and>
      (\<forall>j < length ws. gateway e (gcalls w + j) = None))"

definition rejected ::
  "env \<Rightarrow> 'a session_scheme \<Rightarrow> write_op list \<Rightarrow> thrown \<Rightarrow> 'a session_scheme \<Rightarrow> bool" where
  "rejected e w ws err w' =
     (writes w' = writes w @ ws \<and>
      store w' = apply_writes ws (store w) \<and>
      gcalls w' = gcalls w + length ws + 1 \<and>
      (\<forall>j < length ws. gateway e (gcalls w + j) = None) \<and>
      gateway e (gcalls w + length ws) = Some err)"

text \<open>The writes of one commit: the commit's row, then the rows of its files.\<close>

definition commit_block :: "jsstring \<Rightarrow> commit \<times> commit_file list \<Rightarrow> write_op list" where
  "commit_block repositoryId cf =
     CreateCommit (commit_row_of repositoryId (fst cf)) #
     map (\<lambda>f. CreateCommitFile (file_row_of f)) (snd cf)"

fun is_commit_or_file :: "write_op \<Rightarrow> bool" where
  "is_commit_or_file (CreateCommit c) = True"
| "is_commit_or_file (CreateCommitFile f) = True"
| "is_commit_or_file _ = False"

fun commit_creates :: "write_op list \<Rightarrow> commit_row list" where
  "commit_creates [] = []"
| "commit_creates (CreateCommit c # ws) = c # commit_creates ws"
| "commit_creates (_ # ws) = commit_creates ws"

fun file_creates :: "write_op list \<Rightarrow> commit_file_row list" where
  "file_creates [] = []"
| "file_creates (CreateCommitFile f # ws) = f # file_creates ws"
| "file_creates (_ # ws) = file_creates ws"

text \<open>Two sessions with the same store, the same writes and the same count of gateway
  calls.\<close>

definition same_session :: "'a session_scheme \<Rightarrow> 'a session_scheme \<Rightarrow> bool" where
  "same_session w w' = (writes w' = writes w \<and> store w' = store w \<and> gcalls w' = gcalls w)"

text \<open>Two worlds, of any two components, at the same counts of the calls of
  \<open>Math.random()\<close> and \<open>Date.now()\<close>.\<close>

definition same_calls :: "'a world_scheme \<Rightarrow> 'b world_scheme \<Rightarrow> bool" where
  "same_calls w v = (rcalls w = rcalls v \<and> ccalls w = ccalls v)"

text \<open>The file records of the commits of a list, each commit's from one call of the file
  generator, the calls following one another in the order of the list.\<close>

fun generated_files :: "env \<Rightarrow> commit list \<Rightarrow> 'a world_scheme \<Rightarrow> commit_file list list" where
  "generated_files e [] w = []"
| "generated_files e (c # cs) w =
     (case simulateCommitFiles e (c_id c) (c_filesChanged c) w of
        (files, w') \<Rightarrow> files # generated_files e cs w')"

text \<open>
  What a run of the intake flow that starts in \<open>w\<close> is to write. The flow calls
  \<open>Date.now()\<close> and \<open>Math.random()\<close> once each for the id of the repository, so the commit
  generator starts one call further on both counts (\<open>intake_world\<close>);
  \<open>intake_commits\<close> is what \<open>simulateCommitData\<close> returns there, and \<open>intake_files\<close> what
  \<open>simulateCommitFiles\<close> returns for each of these commits in turn, from where the commit
  generator stopped. \<open>intake_repository\<close> is the record given to
  \<open>blink.db.repositories.create\<close>.
\<close>

definition intake_world :: "'a world_scheme \<Rightarrow> world" where
  "intake_world w = \<lparr>rcalls = Suc (rcalls w), ccalls = Suc (ccalls w)\<rparr>"

definition intake_commits :: "env \<Rightarrow> owner_repo \<Rightarrow> 'a world_scheme \<Rightarrow> commit list" where
  "intake_commits e p w = fst (simulateCommitData e (repo p) (owner p) (intake_world w))"

definition intake_files :: "env \<Rightarrow> owner_repo \<Rightarrow> 'a world_scheme \<Rightarrow> commit_file list list" where
  "intake_files e p w =
     generated_files e (intake_commits e p w)
       (snd (simulateCommitData e (repo p) (owner p) (intake_world w)))"

definition intake_repository ::
  "env \<Rightarrow> jsstring \<Rightarrow> owner_repo \<Rightarrow> jsstring \<Rightarrow> 'a world_scheme \<Rightarrow> repository_row" where
  "intake_repository e url p user_id w =
     \<lparr>r_id = js ''repo_'' @ numToString (now e (ccalls w)) @ js ''_'' @
             substr 2 9 (toString36 e (real_of_unit (random e (rcalls w)))),
      r_user_id = user_id, r_name = repo p,
      r_full_name = owner p @ js ''/'' @ repo p, r_url = trim url,
      r_description = js ''Repository '' @ repo p @ js '' by '' @ owner p,
      r_default_branch = js ''main'', r_total_commits = 0,
      r_analysis_status = js ''analyzing''\<rparr>"

text \<open>An analyzer over an empty store, before any call; the sample environment with the
  second gateway call rejecting.\<close>

definition demo_analyzer :: analyzer where
  "demo_analyzer =
     \<lparr>rcalls = 0, ccalls = 0, gcalls = 0, acalls = 0,
      store = \<lparr>repositories = [], commits = [], commit_files = [], lessons = []\<rparr>,
      writes = [], toasts = [], console = [],
      analyzing = False, progress = 0, currentStep = [], error = [], analyzed = []\<rparr>"

definition failing_env :: env where
  "failing_env = demo_env\<lparr>gateway := \<lambda>k. if k = 1 then Some NonError else None\<rparr>"

text \<open>A lesson panel over an empty store, as it is mounted, and a commit to show.\<close>

definition demo_panel :: panel where
  "demo_panel =
     \<lparr>rcalls = 0, ccalls = 0, gcalls = 0, acalls = 0,
      store = \<lparr>repositories = [], commits = [], commit_files = [], lessons = []\<rparr>,
      writes = [], toasts = [], console = [],
      lesson = None, loading = True, generating = False\<rparr>"

definition demo_commit :: commit where
  "demo_commit =
     \<lparr>c_id = js ''commit_1700000000000_0'', c_sha = js ''k9x2m4q7'',
      c_message = js ''Initial commit'', c_authorName = js ''John Doe'',
      c_authorEmail = js ''john.doe@example.com'', c_date = js ''2023-10-30T22:13:20.000Z'',
      c_filesChanged = 3, c_additions = 42, c_deletions = 7, c_commitOrder = 1\<rparr>"

section \<open>Proofs: evaluation set-up\<close>

declare simulateCommitData_loop.simps [simp del]
declare simulateCommitFiles_loop.simps [simp del]
declare persist_commits.simps [simp del]
declare digits.simps [simp del]

section \<open>Proofs: the URL parser, as one pass\<close>

lemma takeWhile_run: "c \<notin> set g \<Longrightarrow> takeWhile (\<lambda>x. x \<noteq> c) (g @ c # t) = g"
  by (induction g) auto

lemma dropWhile_run: "c \<notin> set g \<Longrightarrow> dropWhile (\<lambda>x. x \<noteq> c) (g @ c # t) = c # t"
  by (induction g) auto

lemma takeWhile_all: "c \<notin> set g \<Longrightarrow> takeWhile (\<lambda>x. x \<noteq> c) g = g"
  by (induction g) auto

lemma dropWhile_all: "c \<notin> set g \<Longrightarrow> dropWhile (\<lambda>x. x \<noteq> c) g = []"
  by (induction g) auto

lemma takeWhile_no: "c \<notin> set (takeWhile (\<lambda>x. x \<noteq> c) s)"
  by (induction s) auto

lemma dropWhile_head: "dropWhile (\<lambda>x. x \<noteq> c) s = y # t \<Longrightarrow> y = c"
  using hd_dropWhile[of "\<lambda>x. x \<noteq> c" s] by auto

lemma strip_prefix_Some: "strip_prefix p s = Some r \<longleftrightarrow> s = p @ r"
  by (auto simp: strip_prefix_def startsWith_def) (metis append_take_drop_id)

text \<open>What follows the scheme matches exactly when it has the shape, and then the two
  groups are the owner and the repository component.\<close>

lemma scan_tail_iff:
  "scan_tail s = Some (g1, g2) \<longleftrightarrow>
     (\<exists>rest. s = js ''://github.com/'' @ g1 @ [slash] @ g2 @ rest \<and>
        g1 \<noteq> [] \<and> slash \<notin> set g1 \<and> g2 \<noteq> [] \<and> slash \<notin> set g2 \<and>
        (rest = [] \<or> (\<exists>t. rest = slash # t \<and> \<not> list_ex isLineTerminator t)))"
  (is "?L \<longleftrightarrow> ?R")
proof
  assume l: ?L
  then obtain r where r: "s = js ''://github.com/'' @ r"
    by (auto simp: scan_tail_def strip_prefix_Some split: option.splits)
  have sp: "strip_prefix (js ''://github.com/'') s = Some r"
    using r by (simp add: strip_prefix_Some)
  define a where "a = takeWhile (\<lambda>c. c \<noteq> slash) r"
  define r1 where "r1 = dropWhile (\<lambda>c. c \<noteq> slash) r"
  from l sp obtain x r2 where r1: "r1 = x # r2" and a: "a \<noteq> []"
    by (auto simp: scan_tail_def Let_def r1_def a_def split: list.splits if_splits)
  have x: "x = slash"
    using r1 dropWhile_head unfolding r1_def by metis
  define b where "b = takeWhile (\<lambda>c. c \<noteq> slash) r2"
  define r3 where "r3 = dropWhile (\<lambda>c. c \<noteq> slash) r2"
  from l sp r1 a have groups:
    "b \<noteq> [] \<and> g1 = a \<and> g2 = b \<and>
     (r3 = [] \<or> (\<exists>y t. r3 = y # t \<and> \<not> list_ex isLineTerminator t))"
    by (auto simp: scan_tail_def Let_def r1_def[symmetric] a_def[symmetric]
        b_def[symmetric] r3_def[symmetric] split: list.splits if_splits)
  have r_eq: "r = a @ slash # r2"
    using r1 x unfolding a_def r1_def by (metis takeWhile_dropWhile_id)
  have r2_eq: "r2 = b @ r3"
    unfolding b_def r3_def by simp
  have "r3 = [] \<or> (\<exists>t. r3 = slash # t \<and> \<not> list_ex isLineTerminator t)"
    using groups dropWhile_head[of slash r2] unfolding r3_def by metis
  moreover have "slash \<notin> set a" "slash \<notin> set b"
    unfolding a_def b_def by (rule takeWhile_no)+
  ultimately show ?R
    using groups a r r_eq r2_eq by auto
next
  assume ?R
  then obtain rest where s: "s = js ''://github.com/'' @ g1 @ [slash] @ g2 @ rest"
    and g: "g1 \<noteq> []" "slash \<notin> set g1" "g2 \<noteq> []" "slash \<notin> set g2"
    and rest: "rest = [] \<or> (\<exists>t. rest = slash # t \<and> \<not> list_ex isLineTerminator t)"
    by blast
  have sp: "strip_prefix (js ''://github.com/'') s = Some (g1 @ slash # g2 @ rest)"
    using s by (simp add: strip_prefix_Some)
  from rest show ?L
  proof
    assume "rest = []"
    then show ?L
      using sp g
      by (simp add: scan_tail_def Let_def takeWhile_run dropWhile_run takeWhile_all
          dropWhile_all)
  next
    assume "\<exists>t. rest = slash # t \<and> \<not> list_ex isLineTerminator t"
    then obtain t where "rest = slash # t" "\<not> list_ex isLineTerminator t"
      by blast
    then show ?L
      using sp g by (simp add: scan_tail_def Let_def takeWhile_run dropWhile_run)
  qed
qed

lemma scan_url_iff: "scan_url url = Some (g1, g2) \<longleftrightarrow> github_url_shape url g1 g2"
  (is "?L \<longleftrightarrow> ?R")
proof
  assume l: ?L
  then obtain r where url: "url = js ''http'' @ r"
    by (auto simp: scan_url_def strip_prefix_Some split: option.splits)
  then have sp: "strip_prefix (js ''http'') url = Some r"
    by (simp add: strip_prefix_Some)
  from l sp have
    "(\<exists>r'. r = js ''s'' @ r' \<and> scan_tail r' = Some (g1, g2)) \<or>
     scan_tail r = Some (g1, g2)"
    by (auto simp: scan_url_def strip_prefix_Some split: option.splits)
  then show ?R
  proof
    assume "\<exists>r'. r = js ''s'' @ r' \<and> scan_tail r' = Some (g1, g2)"
    then obtain r' where r': "r = js ''s'' @ r'" "scan_tail r' = Some (g1, g2)"
      by blast
    from r'(2)[unfolded scan_tail_iff] obtain rest where
      "r' = js ''://github.com/'' @ g1 @ [slash] @ g2 @ rest"
      "g1 \<noteq> []" "slash \<notin> set g1" "g2 \<noteq> []" "slash \<notin> set g2"
      "rest = [] \<or> (\<exists>t. rest = slash # t \<and> \<not> list_ex isLineTerminator t)"
      by blast
    then show ?R
      unfolding github_url_shape_def using url r'(1)
      by (intro exI[of _ "js ''https://''"] exI[of _ rest]) (simp add: js_def)
  next
    assume "scan_tail r = Some (g1, g2)"
    from this[unfolded scan_tail_iff] obtain rest where
      "r = js ''://github.com/'' @ g1 @ [slash] @ g2 @ rest"
      "g1 \<noteq> []" "slash \<notin> set g1" "g2 \<noteq> []" "slash \<notin> set g2"
      "rest = [] \<or> (\<exists>t. rest = slash # t \<and> \<not> list_ex isLineTerminator t)"
      by blast
    then show ?R
      unfolding github_url_shape_def using url
      by (intro exI[of _ "js ''http://''"] exI[of _ rest]) (simp add: js_def)
  qed
next
  assume ?R
  then obtain scheme rest where sch: "scheme = js ''http://'' \<or> scheme = js ''https://''"
    and url: "url = scheme @ js ''github.com/'' @ g1 @ [slash] @ g2 @ rest"
    and g: "g1 \<noteq> []" "slash \<notin> set g1" "g2 \<noteq> []" "slash \<notin> set g2"
      "rest = [] \<or> (\<exists>t. rest = slash # t \<and> \<not> list_ex isLineTerminator t)"
    unfolding github_url_shape_def by blast
  define body where "body = js ''://github.com/'' @ g1 @ [slash] @ g2 @ rest"
  have tl: "scan_tail body = Some (g1, g2)"
    unfolding scan_tail_iff body_def using g by blast
  from sch show ?L
  proof
    assume "scheme = js ''http://''"
    then have u: "url = js ''http'' @ body"
      unfolding body_def url by (simp add: js_def)
    have nos: "strip_prefix (js ''s'') body = None"
      by (simp add: strip_prefix_def startsWith_def body_def js_def)
    show ?L
      unfolding scan_url_def u using tl nos by (simp add: strip_prefix_def startsWith_def)
  next
    assume "scheme = js ''https://''"
    then have u: "url = js ''http'' @ js ''s'' @ body"
      unfolding body_def url by (simp add: js_def)
    show ?L
      unfolding scan_url_def u using tl by (simp add: strip_prefix_def startsWith_def)
  qed
qed

lemma strip_git_suffix: "strip_git (s @ js ''.git'') = s"
  by (simp add: strip_git_def endsWith_def js_def)

lemma endsWith_suffix: "endsWith s p \<longleftrightarrow> suffix p s"
proof
  assume "endsWith s p"
  then have "s = take (length s - length p) s @ p"
    unfolding endsWith_def by (metis append_take_drop_id)
  then show "suffix p s"
    unfolding suffix_def by blast
next
  assume "suffix p s"
  then obtain zs where "s = zs @ p"
    unfolding suffix_def by blast
  then show "endsWith s p"
    by (simp add: endsWith_def)
qed

section \<open>Proofs: the regular expression of the parser\<close>

lemma upt_shift: "[Suc 0..<Suc (Suc m)] = map Suc [0..<Suc m]"
  by (rule map_Suc_upt[symmetric])

lemma rev_upt_0: "rev [0..<Suc (Suc m)] = map Suc (rev [0..<Suc m]) @ [0]"
proof -
  have "[0..<Suc (Suc m)] = 0 # [Suc 0..<Suc (Suc m)]"
    by (rule upt_conv_Cons) simp
  then have "[0..<Suc (Suc m)] = 0 # map Suc [0..<Suc m]"
    by (simp only: upt_shift)
  then show ?thesis
    by (simp only: rev.simps rev_map)
qed

lemma rev_upt_1: "rev [Suc 0..<Suc (Suc m)] = map Suc (rev [0..<Suc m])"
  by (simp only: upt_shift rev_map)

text \<open>Iterating an expression that takes one code unit of a class: the results are the
  input with \<open>k\<close> units taken, for \<open>k\<close> from the length of the longest run down to 0.\<close>

lemma star_class:
  assumes cls: "\<And>x caps. f (x, caps) =
      (case x of a # xs \<Rightarrow> if P a then [(xs, caps)] else [] | [] \<Rightarrow> [])"
  shows "length x \<le> n \<Longrightarrow>
     star f n (x, caps) = map (\<lambda>k. (drop k x, caps)) (rev [0..<Suc (length (takeWhile P x))])"
proof (induction n arbitrary: x)
  case 0
  then show ?case
    by simp
next
  case (Suc n)
  show ?case
  proof (cases x)
    case Nil
    then show ?thesis
      by (simp add: cls)
  next
    case (Cons a xs)
    show ?thesis
    proof (cases "P a")
      case False
      then show ?thesis
        using Cons by (simp add: cls)
    next
      case True
      have "length xs \<le> n"
        using Suc.prems Cons by simp
      from Suc.IH[OF this] show ?thesis
        using Cons True by (simp add: cls rev_upt_0 del: upt_Suc)
    qed
  qed
qed

lemma plus_class:
  assumes cls: "\<And>x caps. run s r (x, caps) =
      (case x of a # xs \<Rightarrow> if P a then [(xs, caps)] else [] | [] \<Rightarrow> [])"
  shows "run s (Plus r) (x, caps) =
     map (\<lambda>k. (drop k x, caps)) (rev [1..<Suc (length (takeWhile P x))])"
proof (cases x)
  case Nil
  then show ?thesis
    by (simp add: cls)
next
  case (Cons a xs)
  show ?thesis
  proof (cases "P a")
    case False
    then show ?thesis
      using Cons by (simp add: cls)
  next
    case True
    have "star (run s r) (length xs) (xs, caps) =
        map (\<lambda>k. (drop k xs, caps)) (rev [0..<Suc (length (takeWhile P xs))])"
      by (rule star_class[where f = "run s r" and P = P, OF cls]) simp
    then show ?thesis
      using Cons True by (simp add: cls rev_upt_1 del: upt_Suc)
  qed
qed

lemma star_dot:
  "run s (Star Dot) (x, caps) =
     map (\<lambda>k. (drop k x, caps))
       (rev [0..<Suc (length (takeWhile (\<lambda>a. \<not> isLineTerminator a) x))])"
proof -
  have "star (run s Dot) (length x) (x, caps) =
     map (\<lambda>k. (drop k x, caps))
       (rev [0..<Suc (length (takeWhile (\<lambda>a. \<not> isLineTerminator a) x))])"
    by (rule star_class[where f = "run s Dot" and P = "\<lambda>a. \<not> isLineTerminator a"])
       (auto split: list.splits)
  then show ?thesis
    by simp
qed

lemma plus_notchr:
  "run s (Plus (NotChr c)) (x, caps) =
     map (\<lambda>k. (drop k x, caps)) (rev [1..<Suc (length (takeWhile (\<lambda>a. a \<noteq> c) x))])"
  by (rule plus_class[where P = "\<lambda>a. a \<noteq> c"]) (auto split: list.splits)

text \<open>Of the candidates, from the longest down, only the longest can go on.\<close>

lemma concat_longest_1:
  assumes "\<And>k. 1 \<le> k \<Longrightarrow> k < n \<Longrightarrow> F k = []"
  shows "concat (map F (rev [1..<Suc n])) = (if 1 \<le> n then F n else [])"
proof (cases "1 \<le> n")
  case False
  then show ?thesis
    by simp
next
  case True
  have "concat (map F (rev [1..<n])) = []"
    using assms by (auto simp: concat_eq_Nil_conv)
  then show ?thesis
    using True by simp
qed

lemma concat_longest_0:
  assumes "\<And>k. k < m \<Longrightarrow> G k = []"
  shows "concat (map G (rev [0..<Suc m])) = G m"
proof -
  have "concat (map G (rev [0..<m])) = []"
    using assms by (auto simp: concat_eq_Nil_conv)
  then show ?thesis
    by simp
qed

lemma js_slash: "js ''/'' = [slash]"
  by (simp add: js_def slash_def)

lemma startsWith_slash: "startsWith y [slash] \<longleftrightarrow> (\<exists>t. y = slash # t)"
  by (cases y) (auto simp: startsWith_def)

lemma run_Cat_Lit:
  "run s (Cat (Lit p) K) (x, caps) =
     (if startsWith x p then run s K (drop (length p) x, caps) else [])"
  by simp

lemma takeWhile_whole: "length (takeWhile P t) = length t \<longleftrightarrow> \<not> list_ex (\<lambda>a. \<not> P a) t"
proof -
  have "length (takeWhile P t) = length t \<longleftrightarrow> takeWhile P t = t"
    by (metis takeWhile_eq_take take_all_iff order_refl)
  then show ?thesis
    by (simp add: takeWhile_eq_all_conv list_ex_iff)
qed

text \<open>The end of the expression, \<open>(?:\/.*)?$\<close>: it matches at the end of the input, and
  before a \<open>/\<close> that no line terminator follows.\<close>

lemma run_path_end:
  "run s (Cat (Opt (Cat (Lit (js ''/'')) (Star Dot))) Eol) (y, caps) =
     (case y of
        [] \<Rightarrow> [([], caps)]
      | a # t \<Rightarrow> if a = slash \<and> \<not> list_ex isLineTerminator t then [([], caps)] else [])"
proof (cases y)
  case Nil
  then show ?thesis
    by (simp add: js_slash startsWith_def)
next
  case (Cons a t)
  show ?thesis
  proof (cases "a = slash")
    case False
    then show ?thesis
      using Cons by (simp add: js_slash startsWith_def)
  next
    case True
    let ?m = "length (takeWhile (\<lambda>a. \<not> isLineTerminator a) t)"
    let ?G = "\<lambda>k. run s Eol (drop k t, caps)"
    have le: "?m \<le> length t"
      by (rule length_takeWhile_le)
    have "concat (map ?G (rev [0..<Suc ?m])) = ?G ?m"
      using le by (intro concat_longest_0) simp
    also have "\<dots> = (if \<not> list_ex isLineTerminator t then [([], caps)] else [])"
      using le takeWhile_whole[of "\<lambda>a. \<not> isLineTerminator a" t] by auto
    finally have "concat (map (run s Eol) (run s (Star Dot) (t, caps))) =
        (if \<not> list_ex isLineTerminator t then [([], caps)] else [])"
      unfolding star_dot by (simp add: comp_def del: upt_Suc run.simps)
    then show ?thesis
      using Cons True by (simp add: js_slash startsWith_def del: upt_Suc run.simps(6))
  qed
qed

text \<open>A group \<open>([^c]+)\<close> before an expression that cannot begin at a unit other than
  \<open>c\<close>: the group takes the whole run up to the next \<open>c\<close>.\<close>

lemma run_group_then:
  assumes stop: "\<And>a t caps'. a \<noteq> c \<Longrightarrow> run s K (a # t, caps') = []"
  shows "run s (Cat (Grp g (Plus (NotChr c))) K) (x, caps) =
     (if takeWhile (\<lambda>a. a \<noteq> c) x = [] then []
      else run s K (dropWhile (\<lambda>a. a \<noteq> c) x, (g, takeWhile (\<lambda>a. a \<noteq> c) x) # caps))"
proof -
  let ?P = "\<lambda>a. a \<noteq> c"
  let ?n = "length (takeWhile ?P x)"
  let ?F = "\<lambda>k. run s K (drop k x, (g, take (length x - length (drop k x)) x) # caps)"
  have le: "?n \<le> length x"
    by (rule length_takeWhile_le)
  have early: "?F k = []" if "k < ?n" for k
  proof -
    have kx: "k < length x"
      using that le by simp
    have "takeWhile ?P x ! k \<in> set (takeWhile ?P x)"
      using that by (rule nth_mem)
    then have "x ! k \<noteq> c"
      using that by (metis set_takeWhileD takeWhile_nth)
    then show ?thesis
      using stop unfolding Cons_nth_drop_Suc[OF kx, symmetric] by simp
  qed
  have "run s (Cat (Grp g (Plus (NotChr c))) K) (x, caps) =
      concat (map (run s K)
        (map (\<lambda>st'. (fst st', (g, take (length (fst (x, caps)) - length (fst st')) (fst (x, caps))) #
                 snd st'))
           (map (\<lambda>k. (drop k x, caps)) (rev [1..<Suc ?n]))))"
    by (simp only: run.simps(4) run.simps(8) plus_notchr)
  also have "\<dots> = concat (map ?F (rev [1..<Suc ?n]))"
    by (simp only: map_map comp_def fst_conv snd_conv)
  also have "\<dots> = (if 1 \<le> ?n then ?F ?n else [])"
    using early by (intro concat_longest_1) simp
  also have "\<dots> = (if takeWhile ?P x = [] then []
      else run s K (dropWhile ?P x, (g, takeWhile ?P x) # caps))"
  proof -
    have "drop ?n x = dropWhile ?P x"
      by (rule dropWhile_eq_drop[symmetric])
    moreover have "take (length x - length (drop ?n x)) x = takeWhile ?P x"
      using le by (simp add: takeWhile_eq_take[symmetric])
    ultimately show ?thesis
      by (cases "takeWhile ?P x") simp_all
  qed
  finally show ?thesis .
qed

lemma run_Cat_Bol:
  "run s (Cat Bol K) (x, caps) = (if length x = length s then run s K (x, caps) else [])"
  by simp

lemma run_Cat_Opt_Lit:
  "run s (Cat (Opt (Lit p)) K) (x, caps) =
     (if startsWith x p then run s K (drop (length p) x, caps) else []) @ run s K (x, caps)"
  by simp

declare run.simps [simp del]
declare star.simps [simp del]

lemma run_tail:
  "run s (Cat (Lit (js ''://github.com/''))
       (Cat (Grp 1 (Plus (NotChr slash))) (Cat (Lit (js ''/'')) (Cat (Grp 2 (Plus (NotChr slash)))
         (Cat (Opt (Cat (Lit (js ''/'')) (Star Dot))) Eol))))) (x, []) =
     (case scan_tail x of
        None \<Rightarrow> []
      | Some (g1, g2) \<Rightarrow> [([], [(2, g2), (1, g1)])])"
proof -
  let ?E = "Cat (Opt (Cat (Lit (js ''/'')) (Star Dot))) Eol"
  let ?K2 = "Cat (Grp 2 (Plus (NotChr slash))) ?E"
  let ?K1 = "Cat (Lit (js ''/'')) ?K2"
  let ?P = "\<lambda>c. c \<noteq> slash"
  have k2: "run s ?K2 (y, caps) =
     (if takeWhile ?P y = [] then []
      else run s ?E (dropWhile ?P y, (2, takeWhile ?P y) # caps))" for y caps
    by (rule run_group_then) (simp only: run_path_end list.case if_False simp_thms)
  have k1: "run s ?K1 (y, caps) = (case y of [] \<Rightarrow> [] | a # t \<Rightarrow>
      if a = slash then run s ?K2 (t, caps) else [])" for y caps
    by (cases y) (auto simp: run_Cat_Lit js_slash startsWith_def)
  have k0: "run s (Cat (Grp 1 (Plus (NotChr slash))) ?K1) (y, caps) =
     (if takeWhile ?P y = [] then []
      else run s ?K1 (dropWhile ?P y, (1, takeWhile ?P y) # caps))" for y caps
    by (rule run_group_then) (simp only: k1 list.case if_False)
  have eng: "run s (Cat (Lit (js ''://github.com/'')) (Cat (Grp 1 (Plus (NotChr slash))) ?K1))
      (x, []) =
     (if startsWith x (js ''://github.com/'')
      then (if takeWhile ?P (drop (length (js ''://github.com/'')) x) = [] then []
            else (case dropWhile ?P (drop (length (js ''://github.com/'')) x) of
                    [] \<Rightarrow> []
                  | a # t \<Rightarrow>
                      if a = slash
                      then (if takeWhile ?P t = [] then []
                            else (case dropWhile ?P t of
                                    [] \<Rightarrow>
                                      [([], [(2, takeWhile ?P t),
                                         (1, takeWhile ?P (drop (length (js ''://github.com/'')) x))])]
                                  | b # u \<Rightarrow>
                                      if b = slash \<and> \<not> list_ex isLineTerminator u
                                      then [([], [(2, takeWhile ?P t),
                                         (1, takeWhile ?P (drop (length (js ''://github.com/'')) x))])]
                                      else []))
                      else []))
      else [])"
    unfolding run_Cat_Lit[where p = "js ''://github.com/''"] k0 k1 k2 run_path_end ..
  show ?thesis
  proof (cases "strip_prefix (js ''://github.com/'') x")
    case None
    then show ?thesis
      unfolding eng scan_tail_def by (simp add: strip_prefix_def split: if_splits)
  next
    case (Some r)
    then have sw: "startsWith x (js ''://github.com/'')"
      and r: "drop (length (js ''://github.com/'')) x = r"
      by (auto simp: strip_prefix_def split: if_splits)
    show ?thesis
    proof (cases "dropWhile ?P r")
      case Nil
      then show ?thesis
        unfolding eng scan_tail_def Some using sw by (simp add: r Nil Let_def)
    next
      case (Cons a r2)
      then have a: "a = slash"
        by (rule dropWhile_head)
      show ?thesis
      proof (cases "dropWhile ?P r2")
        case Nil
        then show ?thesis
          unfolding eng scan_tail_def Some using sw a by (simp add: r Cons Nil Let_def)
      next
        case c2: (Cons b t)
        then have b: "b = slash"
          by (rule dropWhile_head)
        show ?thesis
          unfolding eng scan_tail_def Some using sw a b by (simp add: r Cons c2 Let_def)
      qed
    qed
  qed
qed

lemma tail_after_s: "scan_tail (js ''s'' @ r) = None"
  by (simp add: scan_tail_def strip_prefix_def startsWith_def js_def)

lemma run_githubRegex:
  "run s githubRegex (x, []) =
     (if length x = length s
      then (case scan_url x of None \<Rightarrow> [] | Some (g1, g2) \<Rightarrow> [([], [(2, g2), (1, g1)])])
      else [])"
proof -
  have whole: "run s githubRegex (x, []) =
      (if length x = length s
       then (if startsWith x (js ''http'')
             then (if startsWith (drop (length (js ''http'')) x) (js ''s'')
                   then (case scan_tail
                                 (drop (length (js ''s'')) (drop (length (js ''http'')) x)) of
                           None \<Rightarrow> []
                         | Some (g1, g2) \<Rightarrow> [([], [(2, g2), (1, g1)])])
                   else []) @
                  (case scan_tail (drop (length (js ''http'')) x) of
                     None \<Rightarrow> []
                   | Some (g1, g2) \<Rightarrow> [([], [(2, g2), (1, g1)])])
             else [])
       else [])"
    unfolding githubRegex_def run_Cat_Bol run_Cat_Lit[where p = "js ''http''"] run_Cat_Opt_Lit
      run_tail ..
  show ?thesis
  proof (cases "length x = length s \<and> startsWith x (js ''http'')")
    case False
    then show ?thesis
      unfolding whole by (auto simp: scan_url_def strip_prefix_def)
  next
    case True
    define r where "r = drop (length (js ''http'')) x"
    have sp: "strip_prefix (js ''http'') x = Some r"
      using True by (simp add: strip_prefix_def r_def)
    show ?thesis
    proof (cases "startsWith r (js ''s'')")
      case False
      then show ?thesis
        unfolding whole scan_url_def sp r_def[symmetric]
        using True by (simp add: strip_prefix_def split: option.splits)
    next
      case s: True
      then have "r = js ''s'' @ drop (length (js ''s'')) r"
        unfolding startsWith_def by (metis append_take_drop_id)
      then have "scan_tail r = None"
        using tail_after_s by metis
      then show ?thesis
        unfolding whole scan_url_def sp r_def[symmetric]
        using True s by (simp add: strip_prefix_def split: option.splits)
    qed
  qed
qed

lemma rx_exec_githubRegex:
  "rx_exec githubRegex s =
     (case scan_url s of None \<Rightarrow> None | Some (g1, g2) \<Rightarrow> Some [(2, g2), (1, g1)])"
proof -
  have later: "run s githubRegex (drop i s, []) = []" if "i \<in> set [1..<Suc (length s)]" for i
    using that unfolding run_githubRegex by auto
  have "[0..<Suc (length s)] = 0 # [1..<Suc (length s)]"
    by (simp add: upt_conv_Cons del: upt_Suc)
  then have "concat (map (\<lambda>i. run s githubRegex (drop i s, [])) [0..<Suc (length s)]) =
      run s githubRegex (s, []) @
      concat (map (\<lambda>i. run s githubRegex (drop i s, [])) [1..<Suc (length s)])"
    by simp
  also have "concat (map (\<lambda>i. run s githubRegex (drop i s, [])) [1..<Suc (length s)]) = []"
    using later by (simp only: concat_eq_Nil_conv) auto
  finally show ?thesis
    unfolding rx_exec_def run_githubRegex by (simp split: option.splits)
qed

text \<open>The parser, by the one pass.\<close>

lemma parseGitHubUrl_scan:
  "parseGitHubUrl url =
     (case scan_url url of
        None \<Rightarrow> Inl (Error (js ''Invalid GitHub URL format''))
      | Some (g1, g2) \<Rightarrow> Inr \<lparr>owner = g1, repo = strip_git g2\<rparr>)"
  by (simp add: parseGitHubUrl_def rx_exec_githubRegex group_def split: option.splits)

text \<open>
  Claim C1, as amended. For every input made of the scheme \<open>http://\<close> or \<open>https://\<close>, the
  host \<open>github.com\<close>, a non-empty owner and a non-empty repository component (neither
  holding a \<open>/\<close>), optionally followed by \<open>/\<close> and any text without a line terminator,
  the parser returns exactly the owner and the repository component with one trailing
  \<open>.git\<close> stripped; for every other input it throws the error
  \<open>Invalid GitHub URL format\<close>.
\<close>

theorem parseGitHubUrl_accepts_both_schemes:
  "(\<forall>ow rp. github_url_shape url ow rp \<longrightarrow>
      parseGitHubUrl url = Inr \<lparr>owner = ow, repo = strip_git rp\<rparr>) \<and>
   ((\<nexists>ow rp. github_url_shape url ow rp) \<longrightarrow>
      parseGitHubUrl url = Inl (Error (js ''Invalid GitHub URL format''))) \<and>
   strip_git (s @ js ''.git'') = s \<and>
   (\<not> suffix (js ''.git'') s \<longrightarrow> strip_git s = s)"
proof (intro conjI allI impI)
  fix ow rp
  assume "github_url_shape url ow rp"
  then have "scan_url url = Some (ow, rp)"
    by (simp add: scan_url_iff)
  then show "parseGitHubUrl url = Inr \<lparr>owner = ow, repo = strip_git rp\<rparr>"
    by (simp add: parseGitHubUrl_scan)
next
  assume no: "\<nexists>ow rp. github_url_shape url ow rp"
  have "scan_url url = None"
  proof (cases "scan_url url")
    case (Some m)
    then have "github_url_shape url (fst m) (snd m)"
      by (simp add: scan_url_iff[symmetric])
    with no show ?thesis
      by blast
  qed simp
  then show "parseGitHubUrl url = Inl (Error (js ''Invalid GitHub URL format''))"
    by (simp add: parseGitHubUrl_scan)
next
  show "strip_git (s @ js ''.git'') = s"
    by (rule strip_git_suffix)
next
  assume "\<not> suffix (js ''.git'') s"
  then show "strip_git s = s"
    by (simp add: strip_git_def endsWith_suffix)
qed

text \<open>The theorem at \<open>https://github.com/acme/widgets.git\<close>, which has the shape, and at
  \<open>ftp://github.com/acme/widgets\<close>, which has not.\<close>

theorem parseGitHubUrl_accepts_both_schemes_witness:
  "parseGitHubUrl (js ''https://github.com/acme/widgets.git'') =
     Inr \<lparr>owner = js ''acme'', repo = js ''widgets''\<rparr> \<and>
   parseGitHubUrl (js ''ftp://github.com/acme/widgets'') =
     Inl (Error (js ''Invalid GitHub URL format''))"
proof
  have shape: "github_url_shape (js ''https://github.com/acme/widgets.git'')
                 (js ''acme'') (js ''widgets.git'')"
    unfolding github_url_shape_def
    by (intro exI[of _ "js ''https://''"] exI[of _ "[]"]) (simp add: js_def slash_def)
  have "strip_git (js ''widgets.git'') = js ''widgets''"
    using strip_git_suffix[of "js ''widgets''"] by (simp add: js_def)
  with parseGitHubUrl_accepts_both_schemes[of "js ''https://github.com/acme/widgets.git''"] shape
  show "parseGitHubUrl (js ''https://github.com/acme/widgets.git'') =
          Inr \<lparr>owner = js ''acme'', repo = js ''widgets''\<rparr>"
    by auto
next
  have none: "scan_url (js ''ftp://github.com/acme/widgets'') = None"
    by (simp add: scan_url_def strip_prefix_def startsWith_def js_def)
  have "\<nexists>ow rp. github_url_shape (js ''ftp://github.com/acme/widgets'') ow rp"
    using none scan_url_iff[of "js ''ftp://github.com/acme/widgets''"] by auto
  with parseGitHubUrl_accepts_both_schemes[of "js ''ftp://github.com/acme/widgets''"]
  show "parseGitHubUrl (js ''ftp://github.com/acme/widgets'') =
          Inl (Error (js ''Invalid GitHub URL format''))"
    by blast
qed

text \<open>
  The claim as first worded fails both ways: \<open>http://github.com/acme/widgets\<close> does not
  begin with \<open>https://\<close> and is parsed all the same, and
  \<open>https://github.com/acme/widgets/\<close> followed by a line feed and \<open>x\<close> begins as asked
  and is refused.
\<close>

theorem parseGitHubUrl_https_only_counterexample:
  "\<not> startsWith (js ''http://github.com/acme/widgets'') (js ''https://'') \<and>
   parseGitHubUrl (js ''http://github.com/acme/widgets'') =
     Inr \<lparr>owner = js ''acme'', repo = js ''widgets''\<rparr> \<and>
   startsWith (js ''https://github.com/acme/widgets/\<newline>x'') (js ''https://github.com/acme/widgets/'') \<and>
   parseGitHubUrl (js ''https://github.com/acme/widgets/\<newline>x'') =
     Inl (Error (js ''Invalid GitHub URL format''))"
  by (simp add: parseGitHubUrl_scan scan_url_def scan_tail_def strip_prefix_def
      startsWith_def strip_git_def endsWith_def js_def slash_def isLineTerminator_def)

section \<open>Proofs: the random source\<close>

lemma real_of_unit_bounds: "0 \<le> real_of_unit r" "real_of_unit r < 1"
  using real_of_unit[of r] by auto

lemma floorRandom_range:
  assumes "0 < n"
  shows "0 \<le> fst (floorRandom e n w)" and "fst (floorRandom e n w) < int n"
proof -
  let ?r = "real_of_unit (random e (rcalls w))"
  have v: "fst (floorRandom e n w) = \<lfloor>?r * real n\<rfloor>"
    by (simp add: floorRandom_def MathRandom_def)
  have "0 \<le> ?r * real n"
    using real_of_unit_bounds(1) by simp
  then show "0 \<le> fst (floorRandom e n w)"
    unfolding v by simp
  have "?r * real n < 1 * real n"
    using real_of_unit_bounds(2) assms by (intro mult_strict_right_mono) auto
  then have "?r * real n < of_int (int n)"
    by simp
  then show "fst (floorRandom e n w) < int n"
    unfolding v by (simp only: floor_less_iff)
qed

lemma floorRandom_le:
  "0 < n \<Longrightarrow> floorRandom e n w = (x, w') \<Longrightarrow> 0 \<le> x \<and> x \<le> int n - 1"
  using floorRandom_range[of n e w] by simp

section \<open>Proofs: the commit generator\<close>

lemma length_commitMessages: "length commitMessages = 15"
  by (simp add: commitMessages_def)

lemma commit_body_message: "c_message (fst (commit_body e i w)) = commitMessages ! i"
  by (simp add: commit_body_def Let_def split: prod.splits)

lemma commit_body_order: "c_commitOrder (fst (commit_body e i w)) = int i + 1"
  by (simp add: commit_body_def Let_def split: prod.splits)

lemma commit_loop_step:
  "i < min (length commitMessages) 10 \<Longrightarrow> commit_body e i w = (c, w') \<Longrightarrow>
   simulateCommitData_loop e i acc w = simulateCommitData_loop e (Suc i) (acc @ [c]) w'"
  by (subst simulateCommitData_loop.simps) (simp only: if_True prod.case)

lemma commit_loop_stop:
  "\<not> i < min (length commitMessages) 10 \<Longrightarrow> simulateCommitData_loop e i acc w = (acc, w)"
  by (subst simulateCommitData_loop.simps) (simp only: if_False)

text \<open>A field that each round fixes from the index alone is, over the whole run, that
  function mapped over the indices.\<close>

lemma commit_loop_map:
  assumes "\<And>i (w::'a world_scheme). g (fst (commit_body e i w)) = h i"
  shows "map g (fst (simulateCommitData_loop e i acc (w::'a world_scheme))) =
         map g acc @ map h [i..<min (length commitMessages) 10]"
  using assms
proof (induction e i acc w rule: simulateCommitData_loop.induct)
  case (1 e i acc w)
  show ?case
  proof (cases "i < min (length commitMessages) 10")
    case True
    obtain c w' where b: "commit_body e i w = (c, w')"
      by (cases "commit_body e i w")
    have gc: "g c = h i"
      using "1.prems"[of i w] b by simp
    have ih: "map g (fst (simulateCommitData_loop e (Suc i) (acc @ [c]) w')) =
          map g (acc @ [c]) @ map h [Suc i..<min (length commitMessages) 10]"
      using "1.IH"[OF True b[symmetric]] "1.prems" by simp
    have up: "[i..<min (length commitMessages) 10] = i # [Suc i..<min (length commitMessages) 10]"
      using True by (rule upt_conv_Cons)
    show ?thesis
      unfolding commit_loop_step[OF True b] ih up using gc by simp
  next
    case False
    have up: "[i..<min (length commitMessages) 10] = []"
      using False unfolding upt_eq_Nil_conv by linarith
    show ?thesis
      unfolding commit_loop_stop[OF False] up by simp
  qed
qed

lemma commit_loop_all:
  assumes "\<And>i (w::'a world_scheme). P (fst (commit_body e i w))"
  shows "\<forall>c \<in> set (fst (simulateCommitData_loop e i acc (w::'a world_scheme))).
           c \<in> set acc \<or> P c"
  using assms
proof (induction e i acc w rule: simulateCommitData_loop.induct)
  case (1 e i acc w)
  show ?case
  proof (cases "i < min (length commitMessages) 10")
    case True
    obtain c w' where b: "commit_body e i w = (c, w')"
      by (cases "commit_body e i w")
    have pc: "P c"
      using "1.prems"[of i w] b by simp
    have ih: "\<forall>x \<in> set (fst (simulateCommitData_loop e (Suc i) (acc @ [c]) w')).
                 x \<in> set (acc @ [c]) \<or> P x"
      using "1.IH"[OF True b[symmetric]] "1.prems" by simp
    show ?thesis
      unfolding commit_loop_step[OF True b] using ih pc by auto
  next
    case False
    show ?thesis
      unfolding commit_loop_stop[OF False] by simp
  qed
qed

lemma commit_loop_length:
  "length (fst (simulateCommitData_loop e i acc w)) =
     length acc + (min (length commitMessages) 10 - i)"
proof -
  have "map (\<lambda>_. ()) (fst (simulateCommitData_loop e i acc w)) =
        map (\<lambda>_. ()) acc @ map (\<lambda>_. ()) [i..<min (length commitMessages) 10]"
    by (rule commit_loop_map) simp
  from arg_cong[OF this, of length] show ?thesis
    by simp
qed

lemma map_nth_take: "n \<le> length xs \<Longrightarrow> map (\<lambda>j. xs ! j) [0..<n] = take n xs"
  by (rule nth_equalityI) auto

lemma simulateCommitData_messages:
  "map c_message (fst (simulateCommitData e repoName ow w)) = take 10 commitMessages"
proof -
  have "map c_message (fst (simulateCommitData_loop e 0 [] w)) =
        map c_message ([]::commit list) @
        map (\<lambda>j. commitMessages ! j) [0..<min (length commitMessages) 10]"
    by (rule commit_loop_map[where g = c_message and h = "\<lambda>j. commitMessages ! j"])
       (rule commit_body_message)
  then show ?thesis
    unfolding simulateCommitData_def by (simp add: length_commitMessages map_nth_take)
qed

lemma simulateCommitData_length:
  "length (fst (simulateCommitData e repoName ow w)) = 10"
  unfolding simulateCommitData_def by (simp add: commit_loop_length length_commitMessages)

lemma count_from_one: "map (\<lambda>j. int j + 1) [0..<n] = map int [1..<Suc n]"
  by (induction n) auto

lemma simulateCommitData_orders:
  "map c_commitOrder (fst (simulateCommitData e repoName ow w)) = map int [1..<Suc 10]"
proof -
  have "map c_commitOrder (fst (simulateCommitData_loop e 0 [] w)) =
        map c_commitOrder ([]::commit list) @
        map (\<lambda>j. int j + 1) [0..<min (length commitMessages) 10]"
    by (rule commit_loop_map[where g = c_commitOrder and h = "\<lambda>j. int j + 1"])
       (rule commit_body_order)
  then show ?thesis
    unfolding simulateCommitData_def
    by (simp only: length_commitMessages count_from_one) simp
qed

lemma commit_body_bounds: "commit_in_bounds (fst (commit_body e i w))"
proof -
  obtain a w1 where 1: "floorRandom e (length authors) w = (a, w1)"
    by (cases "floorRandom e (length authors) w")
  obtain t1 w2 where 2: "DateNow e w1 = (t1, w2)"
    by (cases "DateNow e w1")
  obtain t2 w3 where 3: "DateNow e w2 = (t2, w3)"
    by (cases "DateNow e w2")
  obtain r w4 where 4: "MathRandom e w3 = (r, w4)"
    by (cases "MathRandom e w3")
  obtain fc w5 where 5: "floorRandom e 10 w4 = (fc, w5)"
    by (cases "floorRandom e 10 w4")
  obtain ad w6 where 6: "floorRandom e 100 w5 = (ad, w6)"
    by (cases "floorRandom e 100 w5")
  obtain de w7 where 7: "floorRandom e 50 w6 = (de, w7)"
    by (cases "floorRandom e 50 w6")
  have "0 \<le> fc \<and> fc \<le> 9"
    using floorRandom_le[OF _ 5] by simp
  moreover have "0 \<le> ad \<and> ad \<le> 99"
    using floorRandom_le[OF _ 6] by simp
  moreover have "0 \<le> de \<and> de \<le> 49"
    using floorRandom_le[OF _ 7] by simp
  ultimately show ?thesis
    by (simp add: commit_body_def 1 2 3 4 5 6 7 Let_def commit_in_bounds_def)
qed

lemma simulateCommitData_bounds:
  "\<forall>c \<in> set (fst (simulateCommitData e repoName ow w)). commit_in_bounds c"
  unfolding simulateCommitData_def
  using commit_loop_all[where P = commit_in_bounds and acc = "[]", OF commit_body_bounds]
  by simp

section \<open>Proofs: the file generator\<close>

lemma files_loop_step:
  "i < n \<Longrightarrow> file_body e cid i w = (f, w') \<Longrightarrow>
   simulateCommitFiles_loop e cid n i files w =
   simulateCommitFiles_loop e cid n (i + 1) (files @ [f]) w'"
  by (subst simulateCommitFiles_loop.simps) simp

lemma files_loop_stop:
  "\<not> i < n \<Longrightarrow> simulateCommitFiles_loop e cid n i files w = (files, w)"
  by (subst simulateCommitFiles_loop.simps) simp

lemma files_loop_length:
  "length (fst (simulateCommitFiles_loop e cid n i files w)) = length files + nat (n - i)"
proof (induction e cid n i files w rule: simulateCommitFiles_loop.induct)
  case (1 e cid n i files w)
  show ?case
  proof (cases "i < n")
    case True
    obtain f w' where b: "file_body e cid i w = (f, w')"
      by (cases "file_body e cid i w")
    show ?thesis
      unfolding files_loop_step[OF True b] using "1.IH"[OF True b[symmetric]] True by simp
  next
    case False
    then show ?thesis
      unfolding files_loop_stop[OF False] by simp
  qed
qed

lemma files_loop_all:
  assumes "\<And>i (w::'a world_scheme). P (fst (file_body e cid i w))"
  shows "\<forall>f \<in> set (fst (simulateCommitFiles_loop e cid n i files (w::'a world_scheme))).
           f \<in> set files \<or> P f"
  using assms
proof (induction e cid n i files w rule: simulateCommitFiles_loop.induct)
  case (1 e cid n i files w)
  show ?case
  proof (cases "i < n")
    case True
    obtain f w' where b: "file_body e cid i w = (f, w')"
      by (cases "file_body e cid i w")
    have pf: "P f"
      using "1.prems"[of i w] b by simp
    have ih: "\<forall>x \<in> set (fst (simulateCommitFiles_loop e cid n (i + 1) (files @ [f]) w')).
                 x \<in> set (files @ [f]) \<or> P x"
      using "1.IH"[OF True b[symmetric]] "1.prems" by simp
    show ?thesis
      unfolding files_loop_step[OF True b] using ih pf by auto
  next
    case False
    show ?thesis
      unfolding files_loop_stop[OF False] by simp
  qed
qed

lemma files_loop_prefix:
  "\<exists>more. fst (simulateCommitFiles_loop e cid n i files w) = files @ more"
proof (induction e cid n i files w rule: simulateCommitFiles_loop.induct)
  case (1 e cid n i files w)
  show ?case
  proof (cases "i < n")
    case True
    obtain f w' where b: "file_body e cid i w = (f, w')"
      by (cases "file_body e cid i w")
    from "1.IH"[OF True b[symmetric]] obtain more where
      "fst (simulateCommitFiles_loop e cid n (i + 1) (files @ [f]) w') = (files @ [f]) @ more" ..
    then show ?thesis
      unfolding files_loop_step[OF True b] by simp
  next
    case False
    show ?thesis
      unfolding files_loop_stop[OF False] by simp
  qed
qed

lemma simulateCommitFiles_hd:
  assumes "0 < n"
  shows "hd (fst (simulateCommitFiles e cid n w)) = fst (file_body e cid 0 w)"
proof -
  obtain f w' where b: "file_body e cid 0 w = (f, w')"
    by (cases "file_body e cid 0 w")
  obtain more where
    "fst (simulateCommitFiles_loop e cid n (0 + 1) ([] @ [f]) w') = ([] @ [f]) @ more"
    using files_loop_prefix by blast
  then show ?thesis
    unfolding simulateCommitFiles_def files_loop_step[OF assms b] using b by simp
qed

lemma file_body_counts: "file_counts_ok (fst (file_body e cid i w))"
proof -
  obtain k1 w1 where 1: "floorRandom e (length fileNames) w = (k1, w1)"
    by (cases "floorRandom e (length fileNames) w")
  obtain k2 w2 where 2: "floorRandom e (length fileExtensions) w1 = (k2, w2)"
    by (cases "floorRandom e (length fileExtensions) w1")
  obtain k3 w3 where 3: "floorRandom e (length statuses) w2 = (k3, w3)"
    by (cases "floorRandom e (length statuses) w2")
  define status where "status = statuses ! nat k3"
  obtain p w4 where
    4: "patch_text e status (fileNames ! nat k1) (fileExtensions ! nat k2) w3 = (p, w4)"
    by (cases "patch_text e status (fileNames ! nat k1) (fileExtensions ! nat k2) w3")
  obtain t w5 where 5: "DateNow e w4 = (t, w5)"
    by (cases "DateNow e w4")
  obtain x w6 where 6: "floorRandom e 20 w5 = (x, w6)"
    by (cases "floorRandom e 20 w5")
  have x: "0 \<le> x"
    using floorRandom_le[OF _ 6] by simp
  have y: "0 \<le> y" if "floorRandom e 10 v = (y, v')" for v :: "'a world_scheme" and y v'
    using floorRandom_le[OF _ that] by simp
  show ?thesis
    unfolding file_body_def 1 2 3 prod.case Let_def status_def[symmetric] 4 5
    by (auto simp: file_counts_ok_def 6 x split: prod.splits dest: y)
qed

lemma file_body_commitId: "f_commitId (fst (file_body e cid i w)) = cid"
  by (simp add: file_body_def Let_def split: prod.splits)

lemma file_body_status:
  "f_status (fst (file_body e cid i w)) =
     statuses ! nat \<lfloor>real_of_unit (random e (rcalls w + 2)) * 3\<rfloor>"
  by (simp add: file_body_def Let_def floorRandom_def MathRandom_def statuses_def
      split: prod.splits)

lemma simulateCommitFiles_length:
  "length (fst (simulateCommitFiles e cid n w)) = nat n"
  unfolding simulateCommitFiles_def by (simp add: files_loop_length)

lemma simulateCommitFiles_counts:
  "\<forall>f \<in> set (fst (simulateCommitFiles e cid n w)). file_counts_ok f"
  unfolding simulateCommitFiles_def
  using files_loop_all[where P = file_counts_ok and files = "[]", OF file_body_counts]
  by simp

lemma simulateCommitFiles_commitId:
  "\<forall>f \<in> set (fst (simulateCommitFiles e cid n w)). f_commitId f = cid"
  unfolding simulateCommitFiles_def
  using files_loop_all[where P = "\<lambda>f. f_commitId f = cid" and files = "[]",
      OF file_body_commitId]
  by simp

section \<open>The generator claims\<close>

text \<open>
  Claim C3, as amended. The commit generator draws its messages from the fixed pool of 15
  canned messages; the pool is larger than the cap of 10 commits, and the latest pool
  entries are the ones dropped: the produced sequence of messages is the first 10 pool
  messages, in pool order.
\<close>

theorem simulateCommitData_keeps_first_ten:
  "map c_message (fst (simulateCommitData e repoName ow w)) = take 10 commitMessages \<and>
   length commitMessages = 15"
  by (simp add: simulateCommitData_messages length_commitMessages)

theorem simulateCommitData_keeps_first_ten_witness:
  "map c_message (fst (simulateCommitData demo_env (js ''widgets'') (js ''acme'') demo_world)) =
     map js [''Initial commit'', ''Add basic project structure'',
       ''Implement core functionality'', ''Add user authentication'',
       ''Fix authentication bugs'', ''Add database integration'', ''Implement API endpoints'',
       ''Add error handling'', ''Update documentation'', ''Optimize performance'']"
  using simulateCommitData_keeps_first_ten[of demo_env "js ''widgets''" "js ''acme''" demo_world]
  by (simp add: commitMessages_def)

text \<open>
  The claim as first worded has the last 10 pool messages produced. The first message
  produced is \<open>Initial commit\<close>, the first of the pool, and not \<open>Add database integration\<close>,
  the first of the last 10.
\<close>

theorem simulateCommitData_last_ten_counterexample:
  "map c_message (fst (simulateCommitData demo_env (js ''widgets'') (js ''acme'') demo_world)) \<noteq>
     drop (length commitMessages - 10) commitMessages \<and>
   hd (map c_message (fst (simulateCommitData demo_env (js ''widgets'') (js ''acme'') demo_world))) =
     js ''Initial commit'' \<and>
   hd (drop (length commitMessages - 10) commitMessages) = js ''Add database integration''"
  by (simp add: simulateCommitData_messages commitMessages_def js_def)

text \<open>
  Claim C5. Whatever the repository name and the owner, the commit generator produces at
  most 10 commits, and the \<open>commitOrder\<close> indices of the sequence are \<open>1, \<dots>, N\<close> in
  this order, \<open>N\<close> being the number of commits produced: they start at 1 and have no gap
  and no repeat.
\<close>

theorem simulateCommitData_order_indices:
  "length (fst (simulateCommitData e repoName ow w)) \<le> 10 \<and>
   map c_commitOrder (fst (simulateCommitData e repoName ow w)) =
     map int [1..<Suc (length (fst (simulateCommitData e repoName ow w)))] \<and>
   distinct (map c_commitOrder (fst (simulateCommitData e repoName ow w)))"
proof -
  have "distinct (map int [1..<Suc 10])"
    by (simp add: distinct_map inj_on_def)
  then show ?thesis
    by (simp only: simulateCommitData_length simulateCommitData_orders) simp
qed

theorem simulateCommitData_order_indices_witness:
  "map c_commitOrder (fst (simulateCommitData demo_env (js ''widgets'') (js ''acme'') demo_world)) =
     [1, 2, 3, 4, 5, 6, 7, 8, 9, 10]"
proof -
  have "map int [1..<Suc 10] = [1, 2, 3, 4, 5, 6, 7, 8, 9, 10]"
    by (simp add: upt_rec)
  then show ?thesis
    using simulateCommitData_order_indices[of demo_env "js ''widgets''" "js ''acme''" demo_world]
    by (simp add: simulateCommitData_length)
qed

text \<open>
  Claim C10. Every commit the commit generator produces has \<open>filesChanged\<close> between 1
  and 10, \<open>additions\<close> between 10 and 109 and \<open>deletions\<close> between 1 and 50, all
  inclusive; so no generated commit has zero changed files, and the file generator, run
  on a generated commit, never takes its zero-file branch: the list it returns is not
  empty.
\<close>

theorem simulateCommitData_size_bounds:
  "\<forall>c \<in> set (fst (simulateCommitData e repoName ow w)).
     1 \<le> c_filesChanged c \<and> c_filesChanged c \<le> 10 \<and>
     10 \<le> c_additions c \<and> c_additions c \<le> 109 \<and>
     1 \<le> c_deletions c \<and> c_deletions c \<le> 50 \<and>
     fst (simulateCommitFiles e' (c_id c) (c_filesChanged c) w') \<noteq> []"
proof
  fix c
  assume "c \<in> set (fst (simulateCommitData e repoName ow w))"
  then have b: "commit_in_bounds c"
    using simulateCommitData_bounds by blast
  then have "length (fst (simulateCommitFiles e' (c_id c) (c_filesChanged c) w')) \<noteq> 0"
    unfolding simulateCommitFiles_length commit_in_bounds_def by simp
  then show "1 \<le> c_filesChanged c \<and> c_filesChanged c \<le> 10 \<and>
     10 \<le> c_additions c \<and> c_additions c \<le> 109 \<and>
     1 \<le> c_deletions c \<and> c_deletions c \<le> 50 \<and>
     fst (simulateCommitFiles e' (c_id c) (c_filesChanged c) w') \<noteq> []"
    using b unfolding commit_in_bounds_def by simp
qed

theorem simulateCommitData_size_bounds_witness:
  "1 \<le> c_filesChanged (hd (fst (simulateCommitData demo_env (js ''widgets'') (js ''acme'') demo_world))) \<and>
   c_filesChanged (hd (fst (simulateCommitData demo_env (js ''widgets'') (js ''acme'') demo_world))) \<le> 10 \<and>
   10 \<le> c_additions (hd (fst (simulateCommitData demo_env (js ''widgets'') (js ''acme'') demo_world))) \<and>
   c_additions (hd (fst (simulateCommitData demo_env (js ''widgets'') (js ''acme'') demo_world))) \<le> 109 \<and>
   1 \<le> c_deletions (hd (fst (simulateCommitData demo_env (js ''widgets'') (js ''acme'') demo_world))) \<and>
   c_deletions (hd (fst (simulateCommitData demo_env (js ''widgets'') (js ''acme'') demo_world))) \<le> 50 \<and>
   fst (simulateCommitFiles demo_env
          (c_id (hd (fst (simulateCommitData demo_env (js ''widgets'') (js ''acme'') demo_world))))
          (c_filesChanged (hd (fst (simulateCommitData demo_env (js ''widgets'') (js ''acme'') demo_world))))
          demo_world) \<noteq> []"
proof -
  let ?cs = "fst (simulateCommitData demo_env (js ''widgets'') (js ''acme'') demo_world)"
  have "length ?cs = 10"
    by (rule simulateCommitData_length)
  then have "?cs \<noteq> []"
    by auto
  then have "hd ?cs \<in> set ?cs"
    by (rule hd_in_set)
  then show ?thesis
    using simulateCommitData_size_bounds[of demo_env "js ''widgets''" "js ''acme''" demo_world
        demo_env demo_world]
    by blast
qed

text \<open>
  Claim C6. Whatever the commit identifier, the file generator returns a list whose
  length is the declared \<open>filesChanged\<close> count; it is a total function and has no
  failing branch, and for zero files (and for a count below zero, where the loop does
  not run either) it returns the empty list.
\<close>

theorem simulateCommitFiles_count:
  "(0 \<le> filesChanged \<longrightarrow>
      int (length (fst (simulateCommitFiles e commitId filesChanged w))) = filesChanged) \<and>
   (filesChanged \<le> 0 \<longrightarrow> fst (simulateCommitFiles e commitId filesChanged w) = [])"
proof -
  have "length (fst (simulateCommitFiles e commitId filesChanged w)) = nat filesChanged"
    by (rule simulateCommitFiles_length)
  then show ?thesis
    by auto
qed

theorem simulateCommitFiles_count_witness:
  "int (length (fst (simulateCommitFiles demo_env (js ''commit_1'') 3 demo_world))) = 3 \<and>
   fst (simulateCommitFiles demo_env (js ''commit_1'') 0 demo_world) = []"
  using simulateCommitFiles_count[of 3 demo_env "js ''commit_1''" demo_world]
    simulateCommitFiles_count[of 0 demo_env "js ''commit_1''" demo_world]
  by simp

text \<open>
  Claim C7. Every file record the file generator produces has no deletions if its
  status is \<open>added\<close> and no additions if its status is \<open>deleted\<close>, and its additions and
  deletions are integers that are not negative.
\<close>

theorem simulateCommitFiles_status_counts:
  "\<forall>f \<in> set (fst (simulateCommitFiles e commitId filesChanged w)).
     (f_status f = js ''added'' \<longrightarrow> f_deletions f = 0) \<and>
     (f_status f = js ''deleted'' \<longrightarrow> f_additions f = 0) \<and>
     0 \<le> f_additions f \<and> 0 \<le> f_deletions f"
  using simulateCommitFiles_counts[of e commitId filesChanged w]
  unfolding file_counts_ok_def by blast

text \<open>The first of three files in the sample environment is \<open>added\<close>; where every random
  number is \<open>5/6\<close> it is \<open>deleted\<close>.\<close>

theorem simulateCommitFiles_status_counts_witness:
  "f_status (hd (fst (simulateCommitFiles demo_env (js ''commit_1'') 3 demo_world))) = js ''added'' \<and>
   f_deletions (hd (fst (simulateCommitFiles demo_env (js ''commit_1'') 3 demo_world))) = 0 \<and>
   f_status (hd (fst (simulateCommitFiles (demo_env\<lparr>random := \<lambda>k. unit_frac (5 / 6)\<rparr>)
      (js ''commit_1'') 3 demo_world))) = js ''deleted'' \<and>
   f_additions (hd (fst (simulateCommitFiles (demo_env\<lparr>random := \<lambda>k. unit_frac (5 / 6)\<rparr>)
      (js ''commit_1'') 3 demo_world))) = 0"
proof -
  let ?fs = "fst (simulateCommitFiles demo_env (js ''commit_1'') 3 demo_world)"
  let ?e = "demo_env\<lparr>random := \<lambda>k. unit_frac (5 / 6)\<rparr>"
  let ?gs = "fst (simulateCommitFiles ?e (js ''commit_1'') 3 demo_world)"
  have a: "f_status (hd ?fs) = js ''added''"
    unfolding simulateCommitFiles_hd[of 3, simplified] file_body_status
    by (simp add: demo_env_def demo_world_def unit_frac.rep_eq statuses_def)
  have d: "f_status (hd ?gs) = js ''deleted''"
    unfolding simulateCommitFiles_hd[of 3, simplified] file_body_status
    by (simp add: demo_env_def demo_world_def unit_frac.rep_eq statuses_def)
  have "length ?fs = 3" "length ?gs = 3"
    by (simp_all add: simulateCommitFiles_length)
  then have "hd ?fs \<in> set ?fs" "hd ?gs \<in> set ?gs"
    by (auto intro!: hd_in_set)
  then show ?thesis
    using a d simulateCommitFiles_status_counts[of demo_env "js ''commit_1''" 3 demo_world]
      simulateCommitFiles_status_counts[of ?e "js ''commit_1''" 3 demo_world]
    by blast
qed

section \<open>Proofs: the diff line classifier\<close>

lemma startsWith_prefix: "startsWith s p \<longleftrightarrow> prefix p s"
  unfolding startsWith_def
  by (metis append_eq_conv_conj prefix_def append_take_drop_id)

lemma shown_class_format_line: "shown_class (format_line l i) = Some (class_in_words l)"
  by (simp add: shown_class_def format_line_def class_in_words_def startsWith_prefix js_def)

lemma originalLine_format_line: "pl_originalLine (format_line l i) = l"
  by (simp add: format_line_def split: prod.splits)

lemma id_format_line: "pl_id (format_line l i) = i"
  by (simp add: format_line_def split: prod.splits)

lemma map_zip_fst:
  "length xs = length ys \<Longrightarrow> (\<And>x y. g (f x y) = h x) \<Longrightarrow>
   map g (map (\<lambda>(x, y). f x y) (zip xs ys)) = map h xs"
  by (induction xs ys rule: list_induct2) auto

lemma map_zip_snd:
  "length xs = length ys \<Longrightarrow> (\<And>x y. g (f x y) = y) \<Longrightarrow>
   map g (map (\<lambda>(x, y). f x y) (zip xs ys)) = ys"
  by (induction xs ys rule: list_induct2) auto

lemma formatPatch_classes:
  "patch \<noteq> [] \<Longrightarrow>
   map shown_class (formatPatch patch) = map (\<lambda>l. Some (class_in_words l)) (split 0x0A patch)"
  by (simp add: formatPatch_def Let_def map_zip_fst[where h = "\<lambda>l. Some (class_in_words l)"]
      shown_class_format_line del: map_map)

lemma formatPatch_lines:
  "patch \<noteq> [] \<Longrightarrow> map pl_originalLine (formatPatch patch) = split 0x0A patch"
  using map_zip_fst[where g = pl_originalLine and f = format_line and h = "\<lambda>l. l"
      and xs = "split 0x0A patch" and ys = "[0..<length (split 0x0A patch)]"]
  by (simp add: formatPatch_def Let_def originalLine_format_line del: map_map)

lemma formatPatch_ids:
  "map pl_id (formatPatch patch) = [0..<length (formatPatch patch)]"
  using map_zip_snd[where g = pl_id and f = format_line
      and xs = "split 0x0A patch" and ys = "[0..<length (split 0x0A patch)]"]
  by (simp add: formatPatch_def Let_def id_format_line del: map_map)

lemma formatPatch_example:
  "map shown_class
     (formatPatch (js ''+++ b/x\<newline>@@ -1,1 +1,1 @@\<newline>+foo\<newline>-bar\<newline> baz'')) =
     [Some FileHeader, Some HunkHeader, Some Addition, Some Deletion, Some Context]"
  by (simp add: formatPatch_def Let_def format_line_def shown_class_def startsWith_def js_def
      upt_rec)

text \<open>
  Claim C4. For every patch text, the classifier classifies the lines (the pieces between
  line feeds) each on its own and in their order: the \<open>k\<close>-th result is shown in the
  class of the \<open>k\<close>-th line, carries that line and the index \<open>k\<close>; a line beginning with
  \<open>+++\<close> or \<open>---\<close> is a file header, otherwise one beginning with \<open>@@\<close> is a hunk
  header, otherwise one beginning with \<open>+\<close> is an addition, otherwise one beginning with
  \<open>-\<close> is a deletion, otherwise it is context. On the lines \<open>+++ b/x\<close>,
  \<open>@@ -1,1 +1,1 @@\<close>, \<open>+foo\<close>, \<open>-bar\<close>, \<open> baz\<close> it gives header, hunk, addition,
  deletion, context in that order. The empty text has no line and gives no result.
\<close>

theorem formatPatch_classifies:
  "(patch \<noteq> [] \<longrightarrow>
      map shown_class (formatPatch patch) =
        map (\<lambda>l. Some (class_in_words l)) (split 0x0A patch) \<and>
      map pl_originalLine (formatPatch patch) = split 0x0A patch) \<and>
   map pl_id (formatPatch patch) = [0..<length (formatPatch patch)] \<and>
   formatPatch [] = [] \<and>
   map shown_class
     (formatPatch (js ''+++ b/x\<newline>@@ -1,1 +1,1 @@\<newline>+foo\<newline>-bar\<newline> baz'')) =
     [Some FileHeader, Some HunkHeader, Some Addition, Some Deletion, Some Context]"
proof (intro conjI impI)
  assume "patch \<noteq> []"
  then show "map shown_class (formatPatch patch) =
      map (\<lambda>l. Some (class_in_words l)) (split 0x0A patch)"
    by (rule formatPatch_classes)
next
  assume "patch \<noteq> []"
  then show "map pl_originalLine (formatPatch patch) = split 0x0A patch"
    by (rule formatPatch_lines)
next
  show "map pl_id (formatPatch patch) = [0..<length (formatPatch patch)]"
    by (rule formatPatch_ids)
next
  show "formatPatch [] = []"
    by (simp add: formatPatch_def)
next
  show "map shown_class
     (formatPatch (js ''+++ b/x\<newline>@@ -1,1 +1,1 @@\<newline>+foo\<newline>-bar\<newline> baz'')) =
     [Some FileHeader, Some HunkHeader, Some Addition, Some Deletion, Some Context]"
    by (rule formatPatch_example)
qed

theorem formatPatch_classifies_witness:
  "map shown_class (formatPatch (js ''-old\<newline>+new\<newline>@@\<newline>end'')) =
     [Some Deletion, Some Addition, Some HunkHeader, Some Context] \<and>
   map pl_originalLine (formatPatch (js ''-old\<newline>+new\<newline>@@\<newline>end'')) =
     [js ''-old'', js ''+new'', js ''@@'', js ''end'']"
proof -
  let ?p = "js ''-old\<newline>+new\<newline>@@\<newline>end''"
  have ne: "?p \<noteq> []"
    by (simp add: js_def)
  have sp: "split 0x0A ?p = [js ''-old'', js ''+new'', js ''@@'', js ''end'']"
    by (simp add: js_def)
  have cl: "map (\<lambda>l. Some (class_in_words l)) [js ''-old'', js ''+new'', js ''@@'', js ''end''] =
      [Some Deletion, Some Addition, Some HunkHeader, Some Context]"
    by (simp add: class_in_words_def js_def)
  show ?thesis
    using formatPatch_classifies[of ?p] ne unfolding sp cl by blast
qed

section \<open>Proofs: what the generators leave alone\<close>

lemma only_calls_refl: "only_calls w w"
  unfolding only_calls_def by (intro exI[of _ "rcalls w"] exI[of _ "ccalls w"]) simp

lemma only_calls_trans: "only_calls w w1 \<Longrightarrow> only_calls w1 w2 \<Longrightarrow> only_calls w w2"
proof -
  assume "only_calls w w1" "only_calls w1 w2"
  then obtain a b a' b' where "w1 = w\<lparr>rcalls := a, ccalls := b\<rparr>"
    "w2 = w1\<lparr>rcalls := a', ccalls := b'\<rparr>"
    unfolding only_calls_def by blast
  then have "w2 = w\<lparr>rcalls := a', ccalls := b'\<rparr>"
    by simp
  then show ?thesis
    unfolding only_calls_def by blast
qed

lemma only_calls_MathRandom: "MathRandom e w = (r, w') \<Longrightarrow> only_calls w w'"
  unfolding only_calls_def MathRandom_def
  by (intro exI[of _ "Suc (rcalls w)"] exI[of _ "ccalls w"]) auto

lemma only_calls_floorRandom: "floorRandom e n w = (x, w') \<Longrightarrow> only_calls w w'"
  unfolding floorRandom_def by (auto split: prod.splits dest: only_calls_MathRandom)

lemma only_calls_DateNow: "DateNow e w = (t, w') \<Longrightarrow> only_calls w w'"
  unfolding only_calls_def DateNow_def
  by (intro exI[of _ "rcalls w"] exI[of _ "Suc (ccalls w)"]) auto

lemma only_calls_patch_text: "patch_text e st fn ex w = (p, w') \<Longrightarrow> only_calls w w'"
  unfolding patch_text_def
  by (auto split: prod.splits if_splits
      dest!: only_calls_floorRandom intro: only_calls_trans)

lemma only_calls_optional:
  "(if b then (0, w) else (case floorRandom e n w of (x, w') \<Rightarrow> (x + 1, w'))) = (y, w1) \<Longrightarrow>
   only_calls w w1"
  by (auto split: if_splits prod.splits intro: only_calls_refl dest: only_calls_floorRandom)

lemma only_calls_file_body: "file_body e cid i w = (f, w') \<Longrightarrow> only_calls w w'"
proof -
  assume a: "file_body e cid i w = (f, w')"
  obtain k1 w1 where 1: "floorRandom e (length fileNames) w = (k1, w1)"
    by (cases "floorRandom e (length fileNames) w")
  obtain k2 w2 where 2: "floorRandom e (length fileExtensions) w1 = (k2, w2)"
    by (cases "floorRandom e (length fileExtensions) w1")
  obtain k3 w3 where 3: "floorRandom e (length statuses) w2 = (k3, w3)"
    by (cases "floorRandom e (length statuses) w2")
  define status where "status = statuses ! nat k3"
  obtain p w4 where
    4: "patch_text e status (fileNames ! nat k1) (fileExtensions ! nat k2) w3 = (p, w4)"
    by (cases "patch_text e status (fileNames ! nat k1) (fileExtensions ! nat k2) w3")
  obtain t w5 where 5: "DateNow e w4 = (t, w5)"
    by (cases "DateNow e w4")
  obtain ad w6 where 6: "(if status = js ''deleted'' then (0, w5)
      else (case floorRandom e 20 w5 of (x, w') \<Rightarrow> (x + 1, w'))) = (ad, w6)"
    by (cases "(if status = js ''deleted'' then (0, w5)
      else (case floorRandom e 20 w5 of (x, w') \<Rightarrow> (x + 1, w')))")
  obtain de w7 where 7: "(if status = js ''added'' then (0, w6)
      else (case floorRandom e 10 w6 of (x, w') \<Rightarrow> (x + 1, w'))) = (de, w7)"
    by (cases "(if status = js ''added'' then (0, w6)
      else (case floorRandom e 10 w6 of (x, w') \<Rightarrow> (x + 1, w')))")
  have "w' = w7"
    using a unfolding file_body_def 1 2 3 prod.case Let_def status_def[symmetric] 4 5 6 7
    by simp
  moreover have "only_calls w w7"
    using only_calls_floorRandom[OF 1] only_calls_floorRandom[OF 2] only_calls_floorRandom[OF 3]
      only_calls_patch_text[OF 4] only_calls_DateNow[OF 5] only_calls_optional[OF 6]
      only_calls_optional[OF 7]
    by (blast intro: only_calls_trans)
  ultimately show ?thesis
    by simp
qed

lemma only_calls_files_loop:
  "simulateCommitFiles_loop e cid n i files w = (fs, w') \<Longrightarrow> only_calls w w'"
proof (induction e cid n i files w rule: simulateCommitFiles_loop.induct)
  case (1 e cid n i files w)
  show ?case
  proof (cases "i < n")
    case True
    obtain f w1 where b: "file_body e cid i w = (f, w1)"
      by (cases "file_body e cid i w")
    have "only_calls w1 w'"
      using "1.IH"[OF True b[symmetric]] "1.prems" unfolding files_loop_step[OF True b] by simp
    with only_calls_file_body[OF b] show ?thesis
      by (rule only_calls_trans)
  next
    case False
    then show ?thesis
      using "1.prems" unfolding files_loop_stop[OF False] by (simp add: only_calls_refl)
  qed
qed

lemma only_calls_simulateCommitFiles:
  "simulateCommitFiles e cid n w = (fs, w') \<Longrightarrow> only_calls w w'"
  unfolding simulateCommitFiles_def by (rule only_calls_files_loop)

lemma only_calls_commit_body: "commit_body e i w = (c, w') \<Longrightarrow> only_calls w w'"
proof -
  assume a: "commit_body e i w = (c, w')"
  obtain x w1 where 1: "floorRandom e (length authors) w = (x, w1)"
    by (cases "floorRandom e (length authors) w")
  obtain t1 w2 where 2: "DateNow e w1 = (t1, w2)"
    by (cases "DateNow e w1")
  obtain t2 w3 where 3: "DateNow e w2 = (t2, w3)"
    by (cases "DateNow e w2")
  obtain r w4 where 4: "MathRandom e w3 = (r, w4)"
    by (cases "MathRandom e w3")
  obtain fc w5 where 5: "floorRandom e 10 w4 = (fc, w5)"
    by (cases "floorRandom e 10 w4")
  obtain ad w6 where 6: "floorRandom e 100 w5 = (ad, w6)"
    by (cases "floorRandom e 100 w5")
  obtain de w7 where 7: "floorRandom e 50 w6 = (de, w7)"
    by (cases "floorRandom e 50 w6")
  have "w' = w7"
    using a by (simp add: commit_body_def 1 2 3 4 5 6 7 Let_def)
  moreover have "only_calls w w7"
    using only_calls_floorRandom[OF 1] only_calls_DateNow[OF 2] only_calls_DateNow[OF 3]
      only_calls_MathRandom[OF 4] only_calls_floorRandom[OF 5] only_calls_floorRandom[OF 6]
      only_calls_floorRandom[OF 7]
    by (blast intro: only_calls_trans)
  ultimately show ?thesis
    by simp
qed

lemma only_calls_commit_loop:
  "simulateCommitData_loop e i acc w = (cs, w') \<Longrightarrow> only_calls w w'"
proof (induction e i acc w rule: simulateCommitData_loop.induct)
  case (1 e i acc w)
  show ?case
  proof (cases "i < min (length commitMessages) 10")
    case True
    obtain c w1 where b: "commit_body e i w = (c, w1)"
      by (cases "commit_body e i w")
    have "only_calls w1 w'"
      using "1.IH"[OF True b[symmetric]] "1.prems" unfolding commit_loop_step[OF True b] by simp
    with only_calls_commit_body[OF b] show ?thesis
      by (rule only_calls_trans)
  next
    case False
    then show ?thesis
      using "1.prems" unfolding commit_loop_stop[OF False] by (simp add: only_calls_refl)
  qed
qed

lemma only_calls_simulateCommitData:
  "simulateCommitData e repoName ow w = (cs, w') \<Longrightarrow> only_calls w w'"
  unfolding simulateCommitData_def by (rule only_calls_commit_loop)

section \<open>Proofs: the generators read the two counts only\<close>

text \<open>What a generator returns depends on the world through the counts of the calls of
  \<open>Math.random()\<close> and \<open>Date.now()\<close> alone, and the gateway leaves both counts as they
  are; so the records that the flow generates between its writes are those that the
  generators give on a world of the two counts.\<close>

lemma same_calls_refl: "same_calls w w"
  by (simp add: same_calls_def)

lemma same_calls_sym: "same_calls w v \<Longrightarrow> same_calls v w"
  by (simp add: same_calls_def)

lemma same_calls_trans: "same_calls w v \<Longrightarrow> same_calls v u \<Longrightarrow> same_calls w u"
  by (simp add: same_calls_def)

lemma commit_body_same_calls:
  "same_calls w v \<Longrightarrow>
   fst (commit_body e i w) = fst (commit_body e i v) \<and>
   same_calls (snd (commit_body e i w)) (snd (commit_body e i v))"
  by (simp add: commit_body_def floorRandom_def MathRandom_def DateNow_def same_calls_def Let_def)

lemma patch_text_same_calls:
  "same_calls w v \<Longrightarrow>
   fst (patch_text e st fn ex w) = fst (patch_text e st fn ex v) \<and>
   same_calls (snd (patch_text e st fn ex w)) (snd (patch_text e st fn ex v))"
  by (simp add: patch_text_def floorRandom_def MathRandom_def same_calls_def)

lemma file_body_same_calls:
  "same_calls w v \<Longrightarrow>
   fst (file_body e cid i w) = fst (file_body e cid i v) \<and>
   same_calls (snd (file_body e cid i w)) (snd (file_body e cid i v))"
  by (simp add: file_body_def patch_text_def floorRandom_def MathRandom_def DateNow_def
      same_calls_def Let_def)

lemma commit_loop_same_calls:
  "same_calls w v \<Longrightarrow>
   fst (simulateCommitData_loop e i acc w) = fst (simulateCommitData_loop e i acc v) \<and>
   same_calls (snd (simulateCommitData_loop e i acc w)) (snd (simulateCommitData_loop e i acc v))"
proof (induction e i acc w arbitrary: v rule: simulateCommitData_loop.induct)
  case (1 e i acc w)
  show ?case
  proof (cases "i < min (length commitMessages) 10")
    case True
    obtain c w1 where b: "commit_body e i w = (c, w1)"
      by (cases "commit_body e i w")
    obtain c' v1 where b': "commit_body e i v = (c', v1)"
      by (cases "commit_body e i v")
    have "c = c'" "same_calls w1 v1"
      using commit_body_same_calls[OF "1.prems", of e i] b b' by simp_all
    then show ?thesis
      using "1.IH"[OF True b[symmetric], of v1]
      unfolding commit_loop_step[OF True b] commit_loop_step[OF True b'] by simp
  next
    case False
    then show ?thesis
      using "1.prems" unfolding commit_loop_stop[OF False] by simp
  qed
qed

lemma simulateCommitData_same_calls:
  "same_calls w v \<Longrightarrow>
   fst (simulateCommitData e a b w) = fst (simulateCommitData e a b v) \<and>
   same_calls (snd (simulateCommitData e a b w)) (snd (simulateCommitData e a b v))"
  unfolding simulateCommitData_def by (rule commit_loop_same_calls)

lemma files_loop_same_calls:
  "same_calls w v \<Longrightarrow>
   fst (simulateCommitFiles_loop e cid n i files w) =
     fst (simulateCommitFiles_loop e cid n i files v) \<and>
   same_calls (snd (simulateCommitFiles_loop e cid n i files w))
     (snd (simulateCommitFiles_loop e cid n i files v))"
proof (induction e cid n i files w arbitrary: v rule: simulateCommitFiles_loop.induct)
  case (1 e cid n i files w)
  show ?case
  proof (cases "i < n")
    case True
    obtain f w1 where b: "file_body e cid i w = (f, w1)"
      by (cases "file_body e cid i w")
    obtain f' v1 where b': "file_body e cid i v = (f', v1)"
      by (cases "file_body e cid i v")
    have "f = f'" "same_calls w1 v1"
      using file_body_same_calls[OF "1.prems", of e cid i] b b' by simp_all
    then show ?thesis
      using "1.IH"[OF True b[symmetric], of v1]
      unfolding files_loop_step[OF True b] files_loop_step[OF True b'] by simp
  next
    case False
    then show ?thesis
      using "1.prems" unfolding files_loop_stop[OF False] by simp
  qed
qed

lemma simulateCommitFiles_same_calls:
  "same_calls w v \<Longrightarrow>
   fst (simulateCommitFiles e cid n w) = fst (simulateCommitFiles e cid n v) \<and>
   same_calls (snd (simulateCommitFiles e cid n w)) (snd (simulateCommitFiles e cid n v))"
  unfolding simulateCommitFiles_def by (rule files_loop_same_calls)

lemma generated_files_same_calls:
  "same_calls w v \<Longrightarrow> generated_files e cs w = generated_files e cs v"
proof (induction cs arbitrary: w v)
  case Nil
  then show ?case
    by simp
next
  case (Cons c cs)
  obtain fs w1 where a: "simulateCommitFiles e (c_id c) (c_filesChanged c) w = (fs, w1)"
    by (cases "simulateCommitFiles e (c_id c) (c_filesChanged c) w")
  obtain fs' v1 where a': "simulateCommitFiles e (c_id c) (c_filesChanged c) v = (fs', v1)"
    by (cases "simulateCommitFiles e (c_id c) (c_filesChanged c) v")
  have "fs = fs'" "same_calls w1 v1"
    using simulateCommitFiles_same_calls[OF Cons.prems, of e "c_id c" "c_filesChanged c"] a a'
    by simp_all
  then show ?case
    using Cons.IH[of w1 v1] by (simp add: a a')
qed

lemma generated_files_length: "length (generated_files e cs w) = length cs"
  by (induction cs arbitrary: w) (auto split: prod.splits)

lemma generated_files_each:
  "\<forall>cf \<in> set (zip cs (generated_files e cs w)).
     length (snd cf) = nat (c_filesChanged (fst cf)) \<and>
     (\<forall>f \<in> set (snd cf). f_commitId f = c_id (fst cf))"
proof (induction cs arbitrary: w)
  case Nil
  then show ?case
    by simp
next
  case (Cons c cs)
  obtain fs w1 where a: "simulateCommitFiles e (c_id c) (c_filesChanged c) w = (fs, w1)"
    by (cases "simulateCommitFiles e (c_id c) (c_filesChanged c) w")
  have "length fs = nat (c_filesChanged c)"
    using simulateCommitFiles_length[of e "c_id c" "c_filesChanged c" w] a by simp
  moreover have "\<forall>f \<in> set fs. f_commitId f = c_id c"
    using simulateCommitFiles_commitId[of e "c_id c" "c_filesChanged c" w] a by simp
  ultimately show ?case
    using Cons.IH[of w1] by (simp add: a)
qed

lemma db_write_same_calls: "db_write e wr w = (r, w') \<Longrightarrow> same_calls w' w"
  unfolding db_write_def same_calls_def by (auto split: option.splits)

lemma persist_files_same_calls: "persist_files e fs w = (r, w') \<Longrightarrow> same_calls w' w"
proof (induction fs arbitrary: w)
  case Nil
  then show ?case
    by (simp add: same_calls_def)
next
  case (Cons f fs)
  obtain r1 w1 where 1: "db_write e (CreateCommitFile (file_row_of f)) w = (r1, w1)"
    by (cases "db_write e (CreateCommitFile (file_row_of f)) w")
  show ?case
  proof (cases r1)
    case (Inl err)
    then show ?thesis
      using Cons.prems 1 db_write_same_calls[OF 1] by auto
  next
    case (Inr u)
    then have "persist_files e fs w1 = (r, w')"
      using Cons.prems 1 by simp
    from Cons.IH[OF this] db_write_same_calls[OF 1] show ?thesis
      by (rule same_calls_trans)
  qed
qed

section \<open>Proofs: the writes of a run\<close>

lemma apply_writes_Nil: "apply_writes [] d = d"
  by (simp add: apply_writes_def)

lemma apply_writes_append: "apply_writes (a @ b) d = apply_writes b (apply_writes a d)"
  by (simp add: apply_writes_def)

lemma apply_writes_single: "apply_writes [wr] d = apply_write wr d"
  by (simp add: apply_writes_def)

lemma same_session_refl: "same_session w w"
  by (simp add: same_session_def)

lemma same_session_only_calls: "only_calls w w' \<Longrightarrow> same_session w w'"
  unfolding only_calls_def same_session_def by auto

lemma resolved_same: "same_session w w' \<Longrightarrow> resolved e w [] w'"
  by (simp add: same_session_def resolved_def apply_writes_Nil)

lemma resolved_trans:
  assumes "resolved e w a w1" and "resolved e w1 b w2"
  shows "resolved e w (a @ b) w2"
proof -
  have g: "gateway e (gcalls w + j) = None" if "j < length a + length b" for j
  proof (cases "j < length a")
    case True
    then show ?thesis
      using assms(1) unfolding resolved_def by blast
  next
    case False
    then have "j - length a < length b" "gcalls w + j = gcalls w1 + (j - length a)"
      using that assms(1) unfolding resolved_def by auto
    then show ?thesis
      using assms(2) unfolding resolved_def by metis
  qed
  show ?thesis
    using assms g unfolding resolved_def by (simp add: apply_writes_append)
qed

lemma resolved_rejected:
  assumes "resolved e w a w1" and "rejected e w1 b err w2"
  shows "rejected e w (a @ b) err w2"
proof -
  have g: "gateway e (gcalls w + j) = None" if "j < length a + length b" for j
  proof (cases "j < length a")
    case True
    then show ?thesis
      using assms(1) unfolding resolved_def by blast
  next
    case False
    then have "j - length a < length b" "gcalls w + j = gcalls w1 + (j - length a)"
      using that assms(1) unfolding resolved_def by auto
    then show ?thesis
      using assms(2) unfolding rejected_def by metis
  qed
  have eq: "gcalls w + (length a + length b) = gcalls w1 + length b"
    using assms(1) unfolding resolved_def by simp
  have "gateway e (gcalls w1 + length b) = Some err"
    using assms(2) unfolding rejected_def by blast
  then have "gateway e (gcalls w + (length a + length b)) = Some err"
    unfolding eq .
  then show ?thesis
    using assms g unfolding resolved_def rejected_def by (simp add: apply_writes_append)
qed

lemma db_write_Inr: "db_write e wr w = (Inr u, w') \<Longrightarrow> resolved e w [wr] w'"
  unfolding db_write_def resolved_def
  by (auto simp: apply_writes_single split: option.splits)

lemma db_write_Inl: "db_write e wr w = (Inl err, w') \<Longrightarrow> rejected e w [] err w'"
  unfolding db_write_def rejected_def
  by (auto simp: apply_writes_Nil split: option.splits)

lemma persist_files_Inr:
  "persist_files e fs w = (Inr u, w') \<Longrightarrow>
   resolved e w (map (\<lambda>f. CreateCommitFile (file_row_of f)) fs) w'"
proof (induction fs arbitrary: w)
  case Nil
  then show ?case
    by (simp add: resolved_same same_session_refl)
next
  case (Cons f fs)
  from Cons.prems obtain u1 w1 where
    1: "db_write e (CreateCommitFile (file_row_of f)) w = (Inr u1, w1)"
    and 2: "persist_files e fs w1 = (Inr u, w')"
    by (auto split: prod.splits sum.splits)
  show ?case
    using resolved_trans[OF db_write_Inr[OF 1] Cons.IH[OF 2]] by simp
qed

lemma persist_files_Inl:
  "persist_files e fs w = (Inl err, w') \<Longrightarrow>
   \<exists>k < length fs. rejected e w (map (\<lambda>f. CreateCommitFile (file_row_of f)) (take k fs)) err w'"
proof (induction fs arbitrary: w)
  case Nil
  then show ?case
    by simp
next
  case (Cons f fs)
  obtain r w1 where 1: "db_write e (CreateCommitFile (file_row_of f)) w = (r, w1)"
    by (cases "db_write e (CreateCommitFile (file_row_of f)) w")
  show ?case
  proof (cases r)
    case (Inl err1)
    then have "err1 = err" "w1 = w'"
      using Cons.prems 1 by auto
    then have "rejected e w (map (\<lambda>f. CreateCommitFile (file_row_of f)) (take 0 (f # fs))) err w'"
      using db_write_Inl 1 Inl by fastforce
    then show ?thesis
      by (intro exI[of _ 0]) simp
  next
    case (Inr u1)
    then have 2: "persist_files e fs w1 = (Inl err, w')"
      using Cons.prems 1 by auto
    from Cons.IH[OF 2] obtain k where k: "k < length fs"
      "rejected e w1 (map (\<lambda>f. CreateCommitFile (file_row_of f)) (take k fs)) err w'"
      by blast
    have "rejected e w ([CreateCommitFile (file_row_of f)] @
        map (\<lambda>f. CreateCommitFile (file_row_of f)) (take k fs)) err w'"
      using 1 Inr k(2) by (intro resolved_rejected[OF db_write_Inr]) auto
    then show ?thesis
      using k(1) by (intro exI[of _ "Suc k"]) simp
  qed
qed

lemma commit_creates_append: "commit_creates (a @ b) = commit_creates a @ commit_creates b"
  by (induction a rule: commit_creates.induct) auto

lemma commit_creates_files: "commit_creates (map (\<lambda>f. CreateCommitFile (g f)) fs) = []"
  by (induction fs) auto



lemma commit_or_file_files: "list_all is_commit_or_file (map (\<lambda>f. CreateCommitFile (g f)) fs)"
  by (induction fs) auto

lemma commit_creates_block:
  "commit_creates (commit_block rid cf) = [commit_row_of rid (fst cf)]"
  by (simp add: commit_block_def commit_creates_files)

lemma commit_creates_blocks:
  "commit_creates (concat (map (commit_block rid) cfs)) = map (\<lambda>cf. commit_row_of rid (fst cf)) cfs"
  by (induction cfs) (auto simp: commit_creates_append commit_creates_block)

lemma commit_or_file_blocks:
  "list_all is_commit_or_file (concat (map (commit_block rid) cfs))"
  by (induction cfs) (auto simp: commit_block_def commit_or_file_files)

lemma persist_commits_stop:
  "\<not> i < length cs \<Longrightarrow> persist_commits e rid cs i w = (Inr (), w)"
  by (subst persist_commits.simps) simp

lemma persist_commits_step:
  assumes "i < length cs"
    and "db_write e (CreateCommit (commit_row_of rid (cs ! i))) w = (r1, w1)"
    and "simulateCommitFiles e (c_id (cs ! i)) (c_filesChanged (cs ! i)) w1 = (files, w2)"
    and "persist_files e files w2 = (r3, w3)"
  shows "persist_commits e rid cs i w =
     (case r1 of
        Inl err \<Rightarrow> (Inl err, w1)
      | Inr _ \<Rightarrow>
          (case r3 of
             Inl err \<Rightarrow> (Inl err, w3)
           | Inr _ \<Rightarrow>
               persist_commits e rid cs (Suc i)
                 (w3\<lparr>progress := 60 + (real i / real (length cs)) * 30\<rparr>)))"
  by (subst persist_commits.simps) (simp only: assms if_True prod.case split: sum.splits)

lemma persist_commits_Inr:
  "persist_commits e rid cs i w = (Inr u, w') \<Longrightarrow>
   resolved e w
     (concat (map (commit_block rid) (zip (drop i cs) (generated_files e (drop i cs) w)))) w'"
proof (induction e rid cs i w rule: persist_commits.induct)
  case (1 e rid cs i w)
  show ?case
  proof (cases "i < length cs")
    case False
    then have "w' = w"
      using "1.prems" by (simp add: persist_commits_stop)
    then show ?thesis
      using False by (simp add: resolved_same same_session_refl)
  next
    case True
    let ?c = "cs ! i"
    obtain r1 w1 where a: "db_write e (CreateCommit (commit_row_of rid ?c)) w = (r1, w1)"
      by (cases "db_write e (CreateCommit (commit_row_of rid ?c)) w")
    obtain files w2 where b: "simulateCommitFiles e (c_id ?c) (c_filesChanged ?c) w1 = (files, w2)"
      by (cases "simulateCommitFiles e (c_id ?c) (c_filesChanged ?c) w1")
    obtain r3 w3 where c: "persist_files e files w2 = (r3, w3)"
      by (cases "persist_files e files w2")
    let ?w4 = "w3\<lparr>progress := 60 + (real i / real (length cs)) * 30\<rparr>"
    from "1.prems" obtain u1 u3 where r1: "r1 = Inr u1" and r3: "r3 = Inr u3"
      and rec: "persist_commits e rid cs (Suc i) ?w4 = (Inr u, w')"
      unfolding persist_commits_step[OF True a b c]
      by (cases r1; cases r3) auto
    have ih: "resolved e ?w4
        (concat (map (commit_block rid)
           (zip (drop (Suc i) cs) (generated_files e (drop (Suc i) cs) ?w4)))) w'"
      by (rule "1.IH"[OF True a[symmetric] r1 b[symmetric] c[symmetric] r3 rec])
    have s1: "resolved e w [CreateCommit (commit_row_of rid ?c)] w1"
      using a r1 by (auto intro: db_write_Inr)
    have s2: "resolved e w1 [] w2"
      using only_calls_simulateCommitFiles[OF b] by (intro resolved_same same_session_only_calls)
    have s3: "resolved e w2 (map (\<lambda>f. CreateCommitFile (file_row_of f)) files) w3"
      using c r3 by (auto intro: persist_files_Inr)
    have s4: "resolved e w3 [] ?w4"
      by (intro resolved_same) (simp add: same_session_def)
    have blk: "resolved e w (commit_block rid (?c, files)) ?w4"
      using resolved_trans[OF resolved_trans[OF resolved_trans[OF s1 s2] s3] s4]
      by (simp add: commit_block_def)
    have d: "drop i cs = ?c # drop (Suc i) cs"
      using True by (simp add: Cons_nth_drop_Suc)
    obtain files' v2 where b': "simulateCommitFiles e (c_id ?c) (c_filesChanged ?c) w = (files', v2)"
      by (cases "simulateCommitFiles e (c_id ?c) (c_filesChanged ?c) w")
    have same: "files = files'" "same_calls w2 v2"
      using simulateCommitFiles_same_calls[OF db_write_same_calls[OF a],
          of e "c_id ?c" "c_filesChanged ?c"] b b'
      by simp_all
    have "same_calls ?w4 w3"
      by (simp add: same_calls_def)
    then have "same_calls ?w4 v2"
      using persist_files_same_calls[OF c] same(2) by (blast intro: same_calls_trans)
    then have "generated_files e (drop (Suc i) cs) ?w4 = generated_files e (drop (Suc i) cs) v2"
      by (rule generated_files_same_calls)
    then have g: "generated_files e (drop i cs) w =
        files # generated_files e (drop (Suc i) cs) ?w4"
      unfolding d using same(1) by (simp add: b')
    show ?thesis
      using resolved_trans[OF blk ih] unfolding g unfolding d by simp
  qed
qed

lemma persist_commits_Inl:
  "persist_commits e rid cs i w = (Inl err, w') \<Longrightarrow>
   \<exists>ws k. rejected e w ws err w' \<and> list_all is_commit_or_file ws \<and>
     k \<le> length cs - i \<and> commit_creates ws = map (commit_row_of rid) (take k (drop i cs))"
proof (induction e rid cs i w rule: persist_commits.induct)
  case (1 e rid cs i w)
  show ?case
  proof (cases "i < length cs")
    case False
    then show ?thesis
      using "1.prems" by (simp add: persist_commits_stop)
  next
    case True
    let ?c = "cs ! i"
    obtain r1 w1 where a: "db_write e (CreateCommit (commit_row_of rid ?c)) w = (r1, w1)"
      by (cases "db_write e (CreateCommit (commit_row_of rid ?c)) w")
    obtain files w2 where b: "simulateCommitFiles e (c_id ?c) (c_filesChanged ?c) w1 = (files, w2)"
      by (cases "simulateCommitFiles e (c_id ?c) (c_filesChanged ?c) w1")
    obtain r3 w3 where c: "persist_files e files w2 = (r3, w3)"
      by (cases "persist_files e files w2")
    let ?w4 = "w3\<lparr>progress := 60 + (real i / real (length cs)) * 30\<rparr>"
    have d: "drop i cs = ?c # drop (Suc i) cs"
      using True by (simp add: Cons_nth_drop_Suc)
    show ?thesis
    proof (cases r1)
      case (Inl e1)
      then have "e1 = err" "w1 = w'"
        using "1.prems" unfolding persist_commits_step[OF True a b c] by auto
      then have "rejected e w [] err w'"
        using a Inl by (auto intro: db_write_Inl)
      then show ?thesis
        by (intro exI[of _ "[]"] exI[of _ 0]) simp
    next
      case r1: (Inr u1)
      have s1: "resolved e w [CreateCommit (commit_row_of rid ?c)] w1"
        using a r1 by (auto intro: db_write_Inr)
      have s2: "resolved e w1 [] w2"
        using only_calls_simulateCommitFiles[OF b]
        by (intro resolved_same same_session_only_calls)
      show ?thesis
      proof (cases r3)
        case (Inl e3)
        then have "e3 = err" "w3 = w'"
          using "1.prems" unfolding persist_commits_step[OF True a b c] r1 by auto
        then obtain k where k: "k < length files"
          "rejected e w2 (map (\<lambda>f. CreateCommitFile (file_row_of f)) (take k files)) err w'"
          using persist_files_Inl c Inl by blast
        let ?ws = "CreateCommit (commit_row_of rid ?c) #
            map (\<lambda>f. CreateCommitFile (file_row_of f)) (take k files)"
        have "rejected e w ?ws err w'"
          using resolved_rejected[OF resolved_trans[OF s1 s2] k(2)] by simp
        moreover have "list_all is_commit_or_file ?ws"
          by (simp add: commit_or_file_files)
        moreover have "commit_creates ?ws = map (commit_row_of rid) (take 1 (drop i cs))"
          unfolding d by (simp add: commit_creates_files)
        ultimately show ?thesis
          using True by (intro exI[of _ ?ws] exI[of _ 1]) simp
      next
        case r3: (Inr u3)
        have rec: "persist_commits e rid cs (Suc i) ?w4 = (Inl err, w')"
          using "1.prems" unfolding persist_commits_step[OF True a b c] r1 r3 by simp
        from "1.IH"[OF True a[symmetric] r1 b[symmetric] c[symmetric] r3 rec]
        obtain ws k where ws: "rejected e ?w4 ws err w'" "list_all is_commit_or_file ws"
          "k \<le> length cs - Suc i"
          "commit_creates ws = map (commit_row_of rid) (take k (drop (Suc i) cs))"
          by blast
        have s3: "resolved e w2 (map (\<lambda>f. CreateCommitFile (file_row_of f)) files) w3"
          using c r3 by (auto intro: persist_files_Inr)
        have s4: "resolved e w3 [] ?w4"
          by (intro resolved_same) (simp add: same_session_def)
        have blk: "resolved e w (commit_block rid (?c, files)) ?w4"
          using resolved_trans[OF resolved_trans[OF resolved_trans[OF s1 s2] s3] s4]
          by (simp add: commit_block_def)
        let ?ws = "commit_block rid (?c, files) @ ws"
        have "rejected e w ?ws err w'"
          by (rule resolved_rejected[OF blk ws(1)])
        moreover have "list_all is_commit_or_file ?ws"
          using ws(2) by (simp add: commit_block_def commit_or_file_files)
        moreover have "commit_creates ?ws = map (commit_row_of rid) (take (Suc k) (drop i cs))"
          unfolding d using ws(4) by (simp add: commit_creates_append commit_creates_block)
        ultimately show ?thesis
          using True ws(3) by (intro exI[of _ ?ws] exI[of _ "Suc k"]) simp
      qed
    qed
  qed
qed

lemma apply_writes_Cons: "apply_writes (wr # ws) d = apply_writes ws (apply_write wr d)"
  by (simp add: apply_writes_def)

lemma commits_apply_writes: "commits (apply_writes ws d) = commits d @ commit_creates ws"
proof (induction ws arbitrary: d)
  case Nil
  then show ?case
    by (simp add: apply_writes_Nil)
next
  case (Cons wr ws)
  then show ?case
    by (cases wr) (simp_all add: apply_writes_Cons)
qed

lemma commit_files_apply_writes:
  "commit_files (apply_writes ws d) = commit_files d @ file_creates ws"
proof (induction ws arbitrary: d)
  case Nil
  then show ?case
    by (simp add: apply_writes_Nil)
next
  case (Cons wr ws)
  then show ?case
    by (cases wr) (simp_all add: apply_writes_Cons)
qed

lemma repositories_apply_writes:
  "list_all is_commit_or_file ws \<Longrightarrow> repositories (apply_writes ws d) = repositories d"
proof (induction ws arbitrary: d)
  case Nil
  then show ?case
    by (simp add: apply_writes_Nil)
next
  case (Cons wr ws)
  then show ?case
    by (cases wr) (simp_all add: apply_writes_Cons)
qed

lemma lessons_apply_writes:
  "list_all is_commit_or_file ws \<Longrightarrow> lessons (apply_writes ws d) = lessons d"
proof (induction ws arbitrary: d)
  case Nil
  then show ?case
    by (simp add: apply_writes_Nil)
next
  case (Cons wr ws)
  then show ?case
    by (cases wr) (simp_all add: apply_writes_Cons)
qed

lemma commit_creates_blocks_zip:
  assumes "length fss = length cs"
  shows "commit_creates (concat (map (commit_block rid) (zip cs fss))) =
         map (commit_row_of rid) cs"
proof -
  have "map (\<lambda>cf. commit_row_of rid (fst cf)) (zip cs fss) =
        map (commit_row_of rid) (map fst (zip cs fss))"
    by simp
  also have "\<dots> = map (commit_row_of rid) cs"
    using assms by (simp only: map_fst_zip)
  finally show ?thesis
    by (simp only: commit_creates_blocks)
qed

lemma intake_repository_fields [simp]:
  "r_analysis_status (intake_repository e url p uid w) = js ''analyzing''"
  "r_total_commits (intake_repository e url p uid w) = 0"
  "r_name (intake_repository e url p uid w) = repo p"
  "r_url (intake_repository e url p uid w) = trim url"
  by (simp_all add: intake_repository_def)

text \<open>The course of the body of \<open>try\<close> once the URL is parsed and the user is known: the
  repository row \<open>r0\<close> and the generated commits \<open>cs\<close> are fixed, and the run either
  stops at the first gateway call that rejects or makes all its writes.\<close>

lemma analyze_try_course:
  assumes p: "parseGitHubUrl (trim url) = Inr p"
    and u: "me e = Inr uid"
    and run: "analyze_try e url w = (res, w')"
  shows "\<exists>r0 cs.
     r0 = intake_repository e url p uid w \<and> cs = intake_commits e p w \<and>
     r_analysis_status r0 = js ''analyzing'' \<and> r_total_commits r0 = 0 \<and>
     r_name r0 = repo p \<and> r_url r0 = trim url \<and>
     length cs = 10 \<and> (\<forall>c \<in> set cs. commit_in_bounds c) \<and>
     ((\<exists>err. res = Inl err \<and> rejected e w [] err w') \<or>
      (\<exists>err ws k. res = Inl err \<and> rejected e w (CreateRepository r0 # ws) err w' \<and>
         list_all is_commit_or_file ws \<and> k \<le> length cs \<and>
         commit_creates ws = map (commit_row_of (r_id r0)) (take k cs)) \<or>
      (\<exists>final fss. res = Inr final \<and> fss = intake_files e p w \<and>
         length fss = length cs \<and>
         resolved e w
           (CreateRepository r0 # concat (map (commit_block (r_id r0)) (zip cs fss)) @
            [UpdateRepository (r_id r0) (int (length cs)) (js ''completed'')]) w' \<and>
         (\<forall>cf \<in> set (zip cs fss).
            length (snd cf) = nat (c_filesChanged (fst cf)) \<and>
            (\<forall>f \<in> set (snd cf). f_commitId f = c_id (fst cf))) \<and>
         rp_id final = r_id r0 \<and> rp_totalCommits final = int (length cs) \<and>
         rp_analysisStatus final = js ''completed''))"
proof -
  let ?w1 = "w\<lparr>analyzing := True, progress := 0,
               currentStep := js ''Parsing repository URL...'', error := []\<rparr>"
  let ?w2 = "?w1\<lparr>progress := 20, currentStep := js ''Creating repository record...''\<rparr>"
  obtain t w3 where a3: "DateNow e ?w2 = (t, w3)"
    by (cases "DateNow e ?w2")
  obtain r w4 where a4: "MathRandom e w3 = (r, w4)"
    by (cases "MathRandom e w3")
  have t: "t = now e (ccalls w)" and r: "r = real_of_unit (random e (rcalls w))"
    and c4: "same_calls w4 (intake_world w)"
    using a3 a4 by (auto simp: DateNow_def MathRandom_def same_calls_def intake_world_def)
  let ?rid = "js ''repo_'' @ numToString t @ js ''_'' @ substr 2 9 (toString36 e r)"
  let ?r0 = "\<lparr>r_id = ?rid, r_user_id = uid, r_name = repo p,
              r_full_name = owner p @ js ''/'' @ repo p, r_url = trim url,
              r_description = js ''Repository '' @ repo p @ js '' by '' @ owner p,
              r_default_branch = js ''main'', r_total_commits = 0,
              r_analysis_status = js ''analyzing''\<rparr>"
  obtain q5 w5 where a5: "db_write e (CreateRepository ?r0) w4 = (q5, w5)"
    by (cases "db_write e (CreateRepository ?r0) w4")
  let ?w6 = "w5\<lparr>progress := 40, currentStep := js ''Fetching commit history...''\<rparr>"
  obtain cs w7 where a7: "simulateCommitData e (repo p) (owner p) ?w6 = (cs, w7)"
    by (cases "simulateCommitData e (repo p) (owner p) ?w6")
  let ?w8 = "w7\<lparr>progress := 60,
                currentStep := js ''Processing commits and generating diffs...''\<rparr>"
  obtain q9 w9 where a9: "persist_commits e ?rid cs 0 ?w8 = (q9, w9)"
    by (cases "persist_commits e ?rid cs 0 ?w8")
  let ?w10 = "w9\<lparr>progress := 90, currentStep := js ''Finalizing analysis...''\<rparr>"
  let ?upd = "UpdateRepository ?rid (int (length cs)) (js ''completed'')"
  obtain q11 w11 where a11: "db_write e ?upd ?w10 = (q11, w11)"
    by (cases "db_write e ?upd ?w10")
  let ?w12 = "w11\<lparr>progress := 100, currentStep := js ''Analysis complete!''\<rparr>"
  let ?final = "\<lparr>rp_id = ?rid, rp_name = repo p,
              rp_fullName = owner p @ js ''/'' @ repo p, rp_url = trim url,
              rp_description = js ''Repository '' @ repo p @ js '' by '' @ owner p,
              rp_defaultBranch = js ''main'', rp_totalCommits = int (length cs),
              rp_analysisStatus = js ''completed''\<rparr>"
  let ?w13 = "?w12\<lparr>analyzed := analyzed ?w12 @ [?final],
                toasts := toasts ?w12 @
                  [\<lparr>t_title = js ''Analysis Complete'',
                    t_description = js ''Successfully analyzed '' @ numToString (int (length cs)) @
                                    js '' commits from '' @ repo p,
                    t_variant = None\<rparr>]\<rparr>"
  have unfold: "analyze_try e url w =
     (case q5 of
        Inl err \<Rightarrow> (Inl err, w5)
      | Inr _ \<Rightarrow>
          (case q9 of
             Inl err \<Rightarrow> (Inl err, w9)
           | Inr _ \<Rightarrow>
               (case q11 of
                  Inl err \<Rightarrow> (Inl err, w11)
                | Inr _ \<Rightarrow> (Inr ?final, ?w13))))"
    unfolding analyze_try_def Let_def p u sum.case a3 prod.case a4 a5 a7 a9 a11
    by (simp split: sum.splits)
  have r0: "?r0 = intake_repository e url p uid w"
    unfolding intake_repository_def t r ..
  have "same_calls ?w6 w5"
    by (simp add: same_calls_def)
  then have c6: "same_calls ?w6 (intake_world w)"
    using db_write_same_calls[OF a5] c4 by (blast intro: same_calls_trans)
  have cs: "cs = intake_commits e p w"
    and c7: "same_calls w7 (snd (simulateCommitData e (repo p) (owner p) (intake_world w)))"
    using simulateCommitData_same_calls[OF c6, of e "repo p" "owner p"] a7
    by (simp_all add: intake_commits_def)
  have len: "length cs = 10"
    using simulateCommitData_length[of e "repo p" "owner p" ?w6] a7 by simp
  have bnd: "\<forall>c \<in> set cs. commit_in_bounds c"
    using simulateCommitData_bounds[of e "repo p" "owner p" ?w6] a7 by simp
  have s04: "resolved e w [] w4"
  proof -
    have "same_session w ?w2"
      by (simp add: same_session_def)
    moreover have "same_session ?w2 w4"
      using only_calls_trans[OF only_calls_DateNow[OF a3] only_calls_MathRandom[OF a4]]
      by (rule same_session_only_calls)
    ultimately have "same_session w w4"
      unfolding same_session_def by simp
    then show ?thesis
      by (rule resolved_same)
  qed
  have facts: "?r0 = intake_repository e url p uid w \<and> cs = intake_commits e p w \<and>
     r_analysis_status ?r0 = js ''analyzing'' \<and> r_total_commits ?r0 = 0 \<and>
     r_name ?r0 = repo p \<and> r_url ?r0 = trim url \<and>
     length cs = 10 \<and> (\<forall>c \<in> set cs. commit_in_bounds c)"
    by (intro conjI r0 cs len bnd) simp_all
  have rid: "r_id ?r0 = ?rid"
    by simp
  show ?thesis
  proof (cases q5)
    case (Inl err)
    then have res: "res = Inl err" "w' = w5"
      using run unfolding unfold by auto
    have "rejected e w ([] @ []) err w5"
      using a5 Inl by (intro resolved_rejected[OF s04] db_write_Inl) simp
    then show ?thesis
      using facts res by (intro exI[of _ ?r0] exI[of _ cs]) auto
  next
    case q5: (Inr u5)
    have s5: "resolved e w [CreateRepository ?r0] w5"
      using resolved_trans[OF s04 db_write_Inr] a5 q5 by fastforce
    have s58: "resolved e w5 [] ?w8"
    proof -
      have "same_session w5 ?w6"
        by (simp add: same_session_def)
      moreover have "same_session ?w6 w7"
        using only_calls_simulateCommitData[OF a7] by (rule same_session_only_calls)
      moreover have "same_session w7 ?w8"
        by (simp add: same_session_def)
      ultimately have "same_session w5 ?w8"
        unfolding same_session_def by simp
      then show ?thesis
        by (rule resolved_same)
    qed
    have s8: "resolved e w [CreateRepository ?r0] ?w8"
      using resolved_trans[OF s5 s58] by simp
    show ?thesis
    proof (cases q9)
      case (Inl err)
      then have res: "res = Inl err" "w' = w9"
        using run unfolding unfold q5 by auto
      from persist_commits_Inl[of e ?rid cs 0 ?w8 err w9] a9 Inl
      obtain ws k where ws: "rejected e ?w8 ws err w9" "list_all is_commit_or_file ws"
        "k \<le> length cs" "commit_creates ws = map (commit_row_of ?rid) (take k cs)"
        by auto
      have "rejected e w ([CreateRepository ?r0] @ ws) err w9"
        by (rule resolved_rejected[OF s8 ws(1)])
      then have "\<exists>err ws k. res = Inl err \<and> rejected e w (CreateRepository ?r0 # ws) err w' \<and>
         list_all is_commit_or_file ws \<and> k \<le> length cs \<and>
         commit_creates ws = map (commit_row_of (r_id ?r0)) (take k cs)"
        using res ws(2,3,4) unfolding rid by (intro exI[of _ err] exI[of _ ws] exI[of _ k]) simp
      then show ?thesis
        using facts by (intro exI[of _ ?r0] exI[of _ cs]) blast
    next
      case q9: (Inr u9)
      define fss where "fss = generated_files e cs ?w8"
      have fss: "length fss = length cs"
        "resolved e ?w8 (concat (map (commit_block ?rid) (zip cs fss))) w9"
        "\<forall>cf \<in> set (zip cs fss).
           length (snd cf) = nat (c_filesChanged (fst cf)) \<and>
           (\<forall>f \<in> set (snd cf). f_commitId f = c_id (fst cf))"
        using persist_commits_Inr[of e ?rid cs 0 ?w8 u9 w9] a9 q9
          generated_files_length[of e cs ?w8] generated_files_each[of cs e ?w8]
        unfolding fss_def by simp_all
      have "same_calls ?w8 w7"
        by (simp add: same_calls_def)
      then have "same_calls ?w8 (snd (simulateCommitData e (repo p) (owner p) (intake_world w)))"
        using c7 by (rule same_calls_trans)
      then have fi: "fss = intake_files e p w"
        unfolding fss_def intake_files_def cs[symmetric] by (rule generated_files_same_calls)
      let ?blocks = "concat (map (commit_block ?rid) (zip cs fss))"
      have s9: "resolved e w ([CreateRepository ?r0] @ ?blocks) w9"
        by (rule resolved_trans[OF s8 fss(2)])
      have s10: "resolved e w ([CreateRepository ?r0] @ ?blocks) ?w10"
        using resolved_trans[OF s9 resolved_same[of w9 ?w10 e]] by (simp add: same_session_def)
      show ?thesis
      proof (cases q11)
        case (Inl err)
        then have res: "res = Inl err" "w' = w11"
          using run unfolding unfold q5 q9 by auto
        have "rejected e w (([CreateRepository ?r0] @ ?blocks) @ []) err w11"
          using a11 Inl by (intro resolved_rejected[OF s10] db_write_Inl) simp
        then have "\<exists>err ws k. res = Inl err \<and> rejected e w (CreateRepository ?r0 # ws) err w' \<and>
           list_all is_commit_or_file ws \<and> k \<le> length cs \<and>
           commit_creates ws = map (commit_row_of (r_id ?r0)) (take k cs)"
          using res fss(1) unfolding rid
          by (intro exI[of _ err] exI[of _ ?blocks] exI[of _ "length cs"])
             (simp add: commit_or_file_blocks commit_creates_blocks_zip)
        then show ?thesis
          using facts by (intro exI[of _ ?r0] exI[of _ cs]) blast
      next
        case q11: (Inr u11)
        then have res: "res = Inr ?final" "w' = ?w13"
          using run unfolding unfold q5 q9 by auto
        have s11: "resolved e w (([CreateRepository ?r0] @ ?blocks) @ [?upd]) w11"
          using a11 q11 by (intro resolved_trans[OF s10] db_write_Inr) simp
        have s13: "resolved e w (([CreateRepository ?r0] @ ?blocks) @ [?upd]) ?w13"
          using resolved_trans[OF s11 resolved_same[of w11 ?w13 e]] by (simp add: same_session_def)
        have "\<exists>final fss. res = Inr final \<and> fss = intake_files e p w \<and>
           length fss = length cs \<and>
           resolved e w
             (CreateRepository ?r0 # concat (map (commit_block (r_id ?r0)) (zip cs fss)) @
              [UpdateRepository (r_id ?r0) (int (length cs)) (js ''completed'')]) w' \<and>
           (\<forall>cf \<in> set (zip cs fss).
              length (snd cf) = nat (c_filesChanged (fst cf)) \<and>
              (\<forall>f \<in> set (snd cf). f_commitId f = c_id (fst cf))) \<and>
           rp_id final = r_id ?r0 \<and> rp_totalCommits final = int (length cs) \<and>
           rp_analysisStatus final = js ''completed''"
          using res fss(1,3) fi s13 unfolding rid
          by (intro exI[of _ ?final] exI[of _ fss]) simp
        then show ?thesis
          using facts by (intro exI[of _ ?r0] exI[of _ cs]) blast
      qed
    qed
  qed
qed

text \<open>The same course, with the row and the commits left unnamed.\<close>

lemma analyze_try_run:
  assumes p: "parseGitHubUrl (trim url) = Inr p"
    and u: "me e = Inr uid"
    and run: "analyze_try e url w = (res, w')"
  shows "\<exists>r0 cs.
     r_analysis_status r0 = js ''analyzing'' \<and> r_total_commits r0 = 0 \<and>
     r_name r0 = repo p \<and> r_url r0 = trim url \<and>
     length cs = 10 \<and> (\<forall>c \<in> set cs. commit_in_bounds c) \<and>
     ((\<exists>err. res = Inl err \<and> rejected e w [] err w') \<or>
      (\<exists>err ws k. res = Inl err \<and> rejected e w (CreateRepository r0 # ws) err w' \<and>
         list_all is_commit_or_file ws \<and> k \<le> length cs \<and>
         commit_creates ws = map (commit_row_of (r_id r0)) (take k cs)) \<or>
      (\<exists>final fss. res = Inr final \<and> length fss = length cs \<and>
         resolved e w
           (CreateRepository r0 # concat (map (commit_block (r_id r0)) (zip cs fss)) @
            [UpdateRepository (r_id r0) (int (length cs)) (js ''completed'')]) w' \<and>
         (\<forall>cf \<in> set (zip cs fss).
            length (snd cf) = nat (c_filesChanged (fst cf)) \<and>
            (\<forall>f \<in> set (snd cf). f_commitId f = c_id (fst cf))) \<and>
         rp_id final = r_id r0 \<and> rp_totalCommits final = int (length cs) \<and>
         rp_analysisStatus final = js ''completed''))"
  using analyze_try_course[OF assms] by blast



lemma parse_empty: "parseGitHubUrl [] = Inl (Error (js ''Invalid GitHub URL format''))"
  by (simp add: parseGitHubUrl_scan scan_url_def strip_prefix_def startsWith_def js_def)




lemma analyzeRepository_session:
  assumes "trim url \<noteq> []" and "analyze_try e url w = (res, w')"
  shows "same_session w' (analyzeRepository e url w)"
  using assms unfolding analyzeRepository_def same_session_def
  by (cases res) (simp_all add: Let_def)






section \<open>The intake flow claims\<close>

lemma demo_url: "parseGitHubUrl (trim (js ''https://github.com/acme/widgets'')) =
    Inr \<lparr>owner = js ''acme'', repo = js ''widgets''\<rparr>"
  by (simp add: trim_def isWhiteSpace_def parseGitHubUrl_scan scan_url_def scan_tail_def
      strip_prefix_def startsWith_def strip_git_def endsWith_def js_def slash_def
      isLineTerminator_def)





text \<open>
  Claim C9. If a persistence call fails partway through the intake flow (the URL was
  valid and the user known, and the body of \<open>try\<close> ended with a thrown value), then the
  call that rejected is the last gateway call the flow made; every write before it
  resolved and stays in the store; none of these writes is an update, so nothing
  written is taken back and the repository row, if its creation resolved, is left as
  written, in status \<open>analyzing\<close> with a total of 0; the Commit rows persisted are those
  of the first \<open>k\<close> generated commits, for some \<open>k\<close> from 0 to all of them; and what
  follows the body (\<open>catch\<close>, \<open>finally\<close>) calls the gateway no more.
\<close>

theorem analyzeRepository_aborts_without_rollback:
  assumes "parseGitHubUrl (trim url) = Inr p"
    and "me e = Inr uid"
    and "analyze_try e url w = (Inl err, w')"
  shows "\<exists>ws.
     gateway e (gcalls w + length ws) = Some err \<and>
     (\<forall>j < length ws. gateway e (gcalls w + j) = None) \<and>
     gcalls (analyzeRepository e url w) = gcalls w + length ws + 1 \<and>
     writes (analyzeRepository e url w) = writes w @ ws \<and>
     store (analyzeRepository e url w) = apply_writes ws (store w) \<and>
     (ws = [] \<or>
      (\<exists>r0 rest cs k.
         ws = CreateRepository r0 # rest \<and> list_all is_commit_or_file rest \<and>
         r_analysis_status r0 = js ''analyzing'' \<and> r_total_commits r0 = 0 \<and>
         k \<le> length cs \<and>
         repositories (store (analyzeRepository e url w)) = repositories (store w) @ [r0] \<and>
         commits (store (analyzeRepository e url w)) =
           commits (store w) @ map (commit_row_of (r_id r0)) (take k cs))) \<and>
     commit_files (store (analyzeRepository e url w)) = commit_files (store w) @ file_creates ws"
proof -
  have ne: "trim url \<noteq> []"
    using assms(1) parse_empty by auto
  let ?w = "analyzeRepository e url w"
  have same: "writes ?w = writes w'" "store ?w = store w'" "gcalls ?w = gcalls w'"
    using analyzeRepository_session[OF ne assms(3)] unfolding same_session_def by auto
  from analyze_try_run[OF assms] obtain r0 cs where
    r0: "r_analysis_status r0 = js ''analyzing''" "r_total_commits r0 = 0"
    and alt: "rejected e w [] err w' \<or>
      (\<exists>ws k. rejected e w (CreateRepository r0 # ws) err w' \<and>
         list_all is_commit_or_file ws \<and> k \<le> length cs \<and>
         commit_creates ws = map (commit_row_of (r_id r0)) (take k cs))"
    by auto
  from alt show ?thesis
  proof
    assume "rejected e w [] err w'"
    then show ?thesis
      unfolding same rejected_def
      by (intro exI[of _ "[]"]) (simp add: apply_writes_Nil)
  next
    assume "\<exists>ws k. rejected e w (CreateRepository r0 # ws) err w' \<and>
         list_all is_commit_or_file ws \<and> k \<le> length cs \<and>
         commit_creates ws = map (commit_row_of (r_id r0)) (take k cs)"
    then obtain rest k where rj: "rejected e w (CreateRepository r0 # rest) err w'"
      and rest: "list_all is_commit_or_file rest" "k \<le> length cs"
        "commit_creates rest = map (commit_row_of (r_id r0)) (take k cs)"
      by blast
    have st: "store w' = apply_writes rest (apply_write (CreateRepository r0) (store w))"
      using rj unfolding rejected_def by (simp add: apply_writes_Cons)
    have reps: "repositories (store w') = repositories (store w) @ [r0]"
      unfolding st using rest(1) by (simp add: repositories_apply_writes)
    have cms: "commits (store w') = commits (store w) @ map (commit_row_of (r_id r0)) (take k cs)"
      unfolding st commits_apply_writes using rest(3) by simp
    have fls: "commit_files (store w') =
        commit_files (store w) @ file_creates (CreateRepository r0 # rest)"
      unfolding st commit_files_apply_writes by simp
    have "ws = CreateRepository r0 # rest \<Longrightarrow>
      (\<exists>r0 rest cs k.
         ws = CreateRepository r0 # rest \<and> list_all is_commit_or_file rest \<and>
         r_analysis_status r0 = js ''analyzing'' \<and> r_total_commits r0 = 0 \<and>
         k \<le> length cs \<and>
         repositories (store w') = repositories (store w) @ [r0] \<and>
         commits (store w') = commits (store w) @ map (commit_row_of (r_id r0)) (take k cs))"
      for ws
      using rest(1,2) r0 reps cms by blast
    then show ?thesis
      using rj fls unfolding same rejected_def
      by (intro exI[of _ "CreateRepository r0 # rest"]) simp
  qed
qed

lemma failing_run_aborts:
  "\<exists>err w'. analyze_try failing_env (js ''https://github.com/acme/widgets'') demo_analyzer =
     (Inl err, w')"
proof -
  obtain res w' where
    run: "analyze_try failing_env (js ''https://github.com/acme/widgets'') demo_analyzer = (res, w')"
    by (cases "analyze_try failing_env (js ''https://github.com/acme/widgets'') demo_analyzer")
  have u: "me failing_env = Inr (js ''user_1'')"
    by (simp add: failing_env_def demo_env_def)
  have g: "gateway failing_env (gcalls demo_analyzer + 1) \<noteq> None"
    by (simp add: failing_env_def demo_env_def demo_analyzer_def)
  have "\<not> resolved failing_env demo_analyzer (a # bs @ [c]) w'" for a bs c
    using g unfolding resolved_def by auto
  with analyze_try_run[OF demo_url u run] have "\<exists>err. res = Inl err"
    by auto
  then show ?thesis
    using run by auto
qed

theorem analyzeRepository_aborts_without_rollback_witness:
  "gcalls (analyzeRepository failing_env (js ''https://github.com/acme/widgets'') demo_analyzer) = 2 \<and>
   length (writes
     (analyzeRepository failing_env (js ''https://github.com/acme/widgets'') demo_analyzer)) = 1 \<and>
   length (repositories (store
     (analyzeRepository failing_env (js ''https://github.com/acme/widgets'') demo_analyzer))) = 1 \<and>
   r_analysis_status (hd (repositories (store
     (analyzeRepository failing_env (js ''https://github.com/acme/widgets'') demo_analyzer)))) =
     js ''analyzing'' \<and>
   commits (store
     (analyzeRepository failing_env (js ''https://github.com/acme/widgets'') demo_analyzer)) = []"
proof -
  let ?w = "analyzeRepository failing_env (js ''https://github.com/acme/widgets'') demo_analyzer"
  obtain err w' where run:
    "analyze_try failing_env (js ''https://github.com/acme/widgets'') demo_analyzer = (Inl err, w')"
    using failing_run_aborts by blast
  have u: "me failing_env = Inr (js ''user_1'')"
    by (simp add: failing_env_def demo_env_def)
  have g: "gateway failing_env k = None \<longleftrightarrow> k \<noteq> 1" for k
    by (simp add: failing_env_def demo_env_def)
  have z: "gcalls demo_analyzer = 0" "writes demo_analyzer = []"
    "repositories (store demo_analyzer) = []" "commits (store demo_analyzer) = []"
    by (simp_all add: demo_analyzer_def)
  from analyzeRepository_aborts_without_rollback[OF demo_url u run] obtain ws where
    f: "gateway failing_env (gcalls demo_analyzer + length ws) = Some err"
    and n: "\<forall>j < length ws. gateway failing_env (gcalls demo_analyzer + j) = None"
    and c: "gcalls ?w = gcalls demo_analyzer + length ws + 1"
    and wr: "writes ?w = writes demo_analyzer @ ws"
    and st: "store ?w = apply_writes ws (store demo_analyzer)"
    and sh: "ws = [] \<or>
      (\<exists>r0 rest cs k.
         ws = CreateRepository r0 # rest \<and> list_all is_commit_or_file rest \<and>
         r_analysis_status r0 = js ''analyzing'' \<and> r_total_commits r0 = 0 \<and>
         k \<le> length cs \<and>
         repositories (store ?w) = repositories (store demo_analyzer) @ [r0] \<and>
         commits (store ?w) =
           commits (store demo_analyzer) @ map (commit_row_of (r_id r0)) (take k cs))"
    by blast
  have l: "length ws = 1"
  proof -
    have "gateway failing_env (length ws) \<noteq> None"
      using f unfolding z by simp
    then show ?thesis
      unfolding g by simp
  qed
  then obtain r0 where
    ws: "ws = [CreateRepository r0]" "r_analysis_status r0 = js ''analyzing''"
      "repositories (store ?w) = [r0]"
    using sh unfolding z by auto
  have "commits (store ?w) = []"
    unfolding st commits_apply_writes ws z by simp
  then show ?thesis
    using c wr ws l unfolding z by simp
qed

section \<open>Proofs: the lesson panel\<close>

lemma loadLesson_resolved:
  assumes "gateway e (gcalls w) = None"
  shows "lesson (loadLesson e commit w) =
           (case lessons_order e (filter (\<lambda>l. l_commitId l = c_id commit) (lessons (store w))) of
              [] \<Rightarrow> None
            | l # _ \<Rightarrow> Some (lesson_of_row l))"
    and "store (loadLesson e commit w) = store w"
    and "writes (loadLesson e commit w) = writes w"
  using assms
  by (simp_all add: loadLesson_def db_list_lessons_def Let_def split: list.splits)

lemma generateLesson_resolved:
  assumes "gateway e (gcalls w) = None"
    and "generateText e (acalls w) = Inr text"
    and "gateway e (Suc (gcalls w)) = None"
  shows "\<exists>row.
     lessons (store (generateLesson e commit w)) = lessons (store w) @ [row] \<and>
     writes (generateLesson e commit w) = writes w @ [CreateLesson row] \<and>
     l_commitId row = c_id commit \<and> l_content row = text \<and>
     lesson (generateLesson e commit w) \<noteq> None \<and>
     map_option ls_id (lesson (generateLesson e commit w)) = Some (l_id row) \<and>
     map_option ls_content (lesson (generateLesson e commit w)) = Some text \<and>
     gcalls (generateLesson e commit w) = gcalls w + 2 \<and>
     acalls (generateLesson e commit w) = Suc (acalls w)"
proof -
  let ?w0 = "w\<lparr>generating := True\<rparr>"
  let ?w1 = "?w0\<lparr>gcalls := Suc (gcalls ?w0)\<rparr>"
  let ?w2 = "?w1\<lparr>acalls := Suc (acalls ?w1)\<rparr>"
  have a1: "db_list_commit_files e (c_id commit) ?w0 =
      (Inr (filter (\<lambda>f. fr_commit_id f = c_id commit) (commit_files (store ?w0))), ?w1)"
    using assms(1) by (simp add: db_list_commit_files_def)
  have a2: "generateText e (acalls ?w1) = Inr text"
    using assms(2) by simp
  obtain t w3 where a3: "DateNow e ?w2 = (t, w3)"
    by (cases "DateNow e ?w2")
  obtain r w4 where a4: "MathRandom e w3 = (r, w4)"
    by (cases "MathRandom e w3")
  have w4: "w4 = ?w2\<lparr>ccalls := Suc (ccalls w), rcalls := Suc (rcalls w)\<rparr>"
    using a3 a4 by (auto simp: DateNow_def MathRandom_def)
  let ?row = "\<lparr>l_id = js ''lesson_'' @ numToString t @ js ''_'' @ substr 2 9 (toString36 e r),
      l_commitId = c_id commit, l_title = js ''Understanding: '' @ c_message commit,
      l_content = text,
      l_summary = js ''Learn about the changes made in commit '' @ substring 0 8 (c_sha commit),
      l_keyConcepts = js ''Git, Version Control, Code Analysis'',
      l_difficultyLevel = js ''intermediate'',
      l_estimatedReadingTime = \<lceil>real (length text) / 200\<rceil>,
      l_status = js ''generated''\<rparr>"
  have g4: "gateway e (gcalls w4) = None"
    unfolding w4 using assms(3) by simp
  obtain w5 where a5: "db_write e (CreateLesson ?row) w4 = (Inr (), w5)"
    and w5: "w5 = w4\<lparr>gcalls := Suc (gcalls w4), store := apply_write (CreateLesson ?row) (store w4),
                     writes := writes w4 @ [CreateLesson ?row]\<rparr>"
    using g4 by (simp add: db_write_def)
  have "generate_try e commit ?w0 = (Inr (),
      w5\<lparr>lesson := Some \<lparr>ls_id = l_id ?row, ls_title = l_title ?row, ls_content = text,
                         ls_summary = l_summary ?row,
                         ls_keyConcepts = js ''Git, Version Control, Code Analysis'',
                         ls_difficultyLevel = js ''intermediate'',
                         ls_estimatedReadingTime = \<lceil>real (length text) / 200\<rceil>,
                         ls_status = js ''generated''\<rparr>,
          toasts := toasts w5 @
                   [\<lparr>t_title = js ''Lesson Generated'',
                     t_description = js ''AI has created a detailed lesson for this commit'',
                     t_variant = None\<rparr>]\<rparr>)"
    unfolding generate_try_def a1 prod.case sum.case Let_def a2 a3 a4 a5 by simp
  then show ?thesis
    unfolding generateLesson_def Let_def w5 w4
    by (intro exI[of _ ?row]) simp
qed

text \<open>
  Claim C2, as amended. A generation that succeeds (also for a commit that already has a
  lesson) creates one more Lesson row for the commit and leaves the rows there are as
  they are: it neither updates nor replaces; right after it the panel shows the lesson
  just generated. The load operation asks the store for the lessons of the commit with a
  limit of 1 and no ordering, and shows the first row the store lists (none if there is
  no row); which row this is, is up to the order of the store.
\<close>

theorem lesson_panel_generates_new_row_and_loads_first_listed:
  "(gateway e (gcalls w) = None \<and> generateText e (acalls w) = Inr text \<and>
    gateway e (Suc (gcalls w)) = None \<longrightarrow>
      (\<exists>row.
         lessons (store (generateLesson e commit w)) = lessons (store w) @ [row] \<and>
         l_commitId row = c_id commit \<and> l_content row = text \<and>
         map_option ls_id (lesson (generateLesson e commit w)) = Some (l_id row) \<and>
         map_option ls_content (lesson (generateLesson e commit w)) = Some text)) \<and>
   (gateway e (gcalls w) = None \<longrightarrow>
      lesson (loadLesson e commit w) =
        (case lessons_order e (filter (\<lambda>l. l_commitId l = c_id commit) (lessons (store w))) of
           [] \<Rightarrow> None
         | l # _ \<Rightarrow> Some (lesson_of_row l)) \<and>
      store (loadLesson e commit w) = store w)"
proof (intro conjI impI)
  assume "gateway e (gcalls w) = None \<and> generateText e (acalls w) = Inr text \<and>
    gateway e (Suc (gcalls w)) = None"
  then have "gateway e (gcalls w) = None" "generateText e (acalls w) = Inr text"
    "gateway e (Suc (gcalls w)) = None"
    by simp_all
  from generateLesson_resolved[OF this, of commit]
  show "\<exists>row.
         lessons (store (generateLesson e commit w)) = lessons (store w) @ [row] \<and>
         l_commitId row = c_id commit \<and> l_content row = text \<and>
         map_option ls_id (lesson (generateLesson e commit w)) = Some (l_id row) \<and>
         map_option ls_content (lesson (generateLesson e commit w)) = Some text"
    by blast
next
  assume "gateway e (gcalls w) = None"
  then show "lesson (loadLesson e commit w) =
        (case lessons_order e (filter (\<lambda>l. l_commitId l = c_id commit) (lessons (store w))) of
           [] \<Rightarrow> None
         | l # _ \<Rightarrow> Some (lesson_of_row l))"
    by (rule loadLesson_resolved(1))
next
  assume "gateway e (gcalls w) = None"
  then show "store (loadLesson e commit w) = store w"
    by (rule loadLesson_resolved(2))
qed

theorem lesson_panel_generates_new_row_and_loads_first_listed_witness:
  "map l_content (lessons (store (generateLesson demo_env demo_commit demo_panel))) =
     [js ''first lesson''] \<and>
   map_option ls_content (lesson (generateLesson demo_env demo_commit demo_panel)) =
     Some (js ''first lesson'') \<and>
   lesson (loadLesson demo_env demo_commit demo_panel) = None"
proof -
  have g: "gateway demo_env k = None" for k
    by (simp add: demo_env_def)
  have t: "generateText demo_env (acalls demo_panel) = Inr (js ''first lesson'')"
    by (simp add: demo_env_def demo_panel_def)
  have z: "lessons (store demo_panel) = []"
    by (simp add: demo_panel_def)
  have o: "lessons_order demo_env rows = rows" for rows
    by (simp add: demo_env_def)
  show ?thesis
    using lesson_panel_generates_new_row_and_loads_first_listed[of demo_env demo_panel
        "js ''first lesson''" demo_commit] g t
    unfolding z o by auto
qed

text \<open>
  The claim as first worded has the load operation always show the newest lesson. In a
  store that lists rows in the order of their creation it shows the oldest: after a
  generation and a regeneration for the same commit the store holds both lessons, the
  second being the newer, and the load operation shows the first.
\<close>

theorem loadLesson_newest_counterexample:
  "map l_content (lessons (store
     (generateLesson demo_env demo_commit (generateLesson demo_env demo_commit demo_panel)))) =
     [js ''first lesson'', js ''second lesson''] \<and>
   map_option ls_content (lesson (loadLesson demo_env demo_commit
     (generateLesson demo_env demo_commit (generateLesson demo_env demo_commit demo_panel)))) =
     Some (js ''first lesson'') \<and>
   js ''first lesson'' \<noteq> js ''second lesson''"
proof -
  let ?w1 = "generateLesson demo_env demo_commit demo_panel"
  let ?w2 = "generateLesson demo_env demo_commit ?w1"
  have g: "gateway demo_env k = None" for k
    by (simp add: demo_env_def)
  have o: "lessons_order demo_env rows = rows" for rows
    by (simp add: demo_env_def)
  have t1: "generateText demo_env (acalls demo_panel) = Inr (js ''first lesson'')"
    by (simp add: demo_env_def demo_panel_def)
  from generateLesson_resolved[OF g t1 g, of demo_commit] obtain row1 where
    r1: "lessons (store ?w1) = lessons (store demo_panel) @ [row1]"
      "l_commitId row1 = c_id demo_commit" "l_content row1 = js ''first lesson''"
      "acalls ?w1 = Suc (acalls demo_panel)"
    by blast
  have t2: "generateText demo_env (acalls ?w1) = Inr (js ''second lesson'')"
    unfolding r1(4) by (simp add: demo_env_def demo_panel_def)
  from generateLesson_resolved[OF g t2 g, of demo_commit] obtain row2 where
    r2: "lessons (store ?w2) = lessons (store ?w1) @ [row2]"
      "l_commitId row2 = c_id demo_commit" "l_content row2 = js ''second lesson''"
    by blast
  have ls: "lessons (store ?w2) = [row1, row2]"
    unfolding r2(1) r1(1) by (simp add: demo_panel_def)
  have "lesson (loadLesson demo_env demo_commit ?w2) = Some (lesson_of_row row1)"
    unfolding loadLesson_resolved(1)[OF g] o ls using r1(2) by simp
  then have "map_option ls_content (lesson (loadLesson demo_env demo_commit ?w2)) =
      Some (js ''first lesson'')"
    using r1(3) by (simp add: lesson_of_row_def)
  moreover have "js ''first lesson'' \<noteq> js ''second lesson''"
    by (simp add: js_def)
  ultimately show ?thesis
    unfolding ls using r1(3) r2(3) by simp
qed

end
